theory Spec2Isabelle
  imports Main "HOL-Library.Signed_Division"
begin

section \<open>Round-Robin scheduling simulator: the model of \<open>scheduler.cpp\<close>\<close>

text \<open>
  The one function of the repository, \<open>simulate_rr\<close>, is embedded as a loop over an explicit
  state. Conventions of the embedding:
  \<^item> \<open>int64_t\<close> and \<open>int\<close> values are HOL integers. Signed overflow is undefined behaviour
    in C++, so the model describes the runs whose times and bursts stay inside 64 bits.
  \<^item> C++ \<open>/\<close> and \<open>%\<close> truncate towards zero: they are \<open>sdiv\<close> and \<open>smod\<close>; a zero
    divisor is the error \<open>DivisionByZero\<close>.
  \<^item> \<open>v.at(i)\<close> throws \<open>std::out_of_range\<close>: the error \<open>OutOfRange\<close>. An \<open>int\<close> index is
    converted to \<open>size_t\<close>, so a negative index is out of range as well.
  \<^item> \<open>seq.back()\<close> on an empty vector is undefined: the error \<open>BackOfEmpty\<close>.
  \<^item> \<open>while(true)\<close> may run forever on some inputs: the loop is a partial function into
    \<open>option\<close>, and \<open>None\<close> is a run that never returns.
\<close>

datatype error = OutOfRange | BackOfEmpty | DivisionByZero

text \<open>
  Modelled from the spec: the \<open>Process\<close> record, declared in a header (\<open>scheduler.h\<close> or
  \<open>common.h\<close>) that is not part of the sources. Spec section 3 lists its five integer
  fields; the field \<open>id\<close> is named \<open>pid\<close> here because \<open>id\<close> is the identity function of HOL.
\<close>

record process =
  pid :: int
  arrival_time :: int
  burst :: int
  start_time :: int
  finish_time :: int

text \<open>
  The local variables of \<open>simulate_rr\<close> together with its two reference parameters
  \<open>processes\<close> and \<open>seq\<close>. The field \<open>bootstraps\<close> is a ghost counter, not a variable of
  the program: it counts the executions of the branch at lines 39 to 49 and is never read.
\<close>

record state =
  curr_time :: int
  rq :: "int list"
  jq :: "int list"
  remaining_bursts :: "int list"
  processes :: "process list"
  seq :: "int list"
  bootstraps :: nat

datatype flow = Continue state | Break state

definition ebind :: "error + 'a \<Rightarrow> ('a \<Rightarrow> error + 'b) \<Rightarrow> error + 'b" where
  "ebind m f = (case m of Inl e \<Rightarrow> Inl e | Inr x \<Rightarrow> f x)"

text \<open>\<open>xs.at(i)\<close> for an \<open>int\<close> index.\<close>

definition at :: "'a list \<Rightarrow> int \<Rightarrow> error + 'a" where
  "at xs i = (if 0 \<le> i \<and> i < int (length xs) then Inr (xs ! nat i) else Inl OutOfRange)"

text \<open>C++ integer division.\<close>

definition quot :: "int \<Rightarrow> int \<Rightarrow> error + int" where
  "quot a b = (if b = 0 then Inl DivisionByZero else Inr (a sdiv b))"

definition remainder :: "int \<Rightarrow> int \<Rightarrow> error + int" where
  "remainder a b = (if b = 0 then Inl DivisionByZero else Inr (a smod b))"

text \<open>
  \<open>if((int64_t)seq.size() < max_seq_len && seq.back() != x) seq.push_back(x);\<close>
  (lines 93, 110, 140, 163, 202, 216, 232).
\<close>

definition push_seq :: "int \<Rightarrow> int \<Rightarrow> state \<Rightarrow> error + state" where
  "push_seq max_seq_len x s =
     (if int (length (seq s)) < max_seq_len then
        (if seq s = [] then Inl BackOfEmpty
         else if last (seq s) \<noteq> x then Inr (s\<lparr>seq := seq s @ [x]\<rparr>)
         else Inr s)
      else Inr s)"

text \<open>
  \<open>if(processes.at(i).start_time == -1) processes.at(i).start_time = t;\<close>
  (lines 85, 106, 136, 159, 194, 212, 228).
\<close>

definition set_start :: "int \<Rightarrow> int \<Rightarrow> process list \<Rightarrow> error + process list" where
  "set_start i t ps =
     ebind (at ps i) (\<lambda>p.
       if start_time p = - 1 then Inr (ps[nat i := p\<lparr>start_time := t\<rparr>]) else Inr ps)"

text \<open>\<open>processes.at(i).finish_time = t;\<close> (lines 144, 166, 236).\<close>

definition set_finish :: "int \<Rightarrow> int \<Rightarrow> process list \<Rightarrow> error + process list" where
  "set_finish i t ps = ebind (at ps i) (\<lambda>p. Inr (ps[nat i := p\<lparr>finish_time := t\<rparr>]))"

text \<open>\<open>remaining_bursts.at(i) = v;\<close>\<close>

definition set_remaining :: "int \<Rightarrow> int \<Rightarrow> int list \<Rightarrow> error + int list" where
  "set_remaining i v rem = ebind (at rem i) (\<lambda>_. Inr (rem[nat i := v]))"

text \<open>\<open>rq.push_back(rq.at(0)); rq.erase(rq.begin());\<close> (lines 121, 127, 220).\<close>

definition requeue :: "int list \<Rightarrow> error + int list" where
  "requeue xs = ebind (at xs 0) (\<lambda>x. Inr (tl (xs @ [x])))"

text \<open>
  Lines 64 to 74 (and 175 to 185): the scan of the ready queue for the flag and the
  smallest remaining burst. The scan stops at the first process that has at most one
  quantum left.
\<close>

fun scan :: "int \<Rightarrow> int list \<Rightarrow> int list \<Rightarrow> int \<Rightarrow> error + (bool \<times> int)" where
  "scan quantum rem [] min_bursts = Inr (True, min_bursts)"
| "scan quantum rem (r # rs) min_bursts =
     ebind (at rem r) (\<lambda>b.
       if b \<le> quantum then Inr (False, min_bursts)
       else scan quantum rem rs (if b < min_bursts then b else min_bursts))"

text \<open>Lines 76 to 79 (and 187 to 191): \<open>n = min_bursts/quantum\<close>, one less on an exact multiple.\<close>

definition rounds :: "int \<Rightarrow> int \<Rightarrow> error + int" where
  "rounds min_bursts quantum =
     ebind (quot min_bursts quantum) (\<lambda>n.
     ebind (remainder min_bursts quantum) (\<lambda>r.
       Inr (if r = 0 then n - 1 else n)))"

text \<open>
  Lines 84 to 89 (and 193 to 198): the loop over the ready queue that staggers the start
  times and takes \<open>k\<close> quanta from every remaining burst. \<open>i\<close> is the loop index.
\<close>

fun stagger :: "int \<Rightarrow> int \<Rightarrow> int \<Rightarrow> int \<Rightarrow> int list \<Rightarrow> process list \<times> int list
    \<Rightarrow> error + process list \<times> int list" where
  "stagger quantum k now i [] (ps, rem) = Inr (ps, rem)"
| "stagger quantum k now i (r # rs) (ps, rem) =
     ebind (set_start r (now + quantum * i) ps) (\<lambda>ps'.
     ebind (at rem r) (\<lambda>b.
       stagger quantum k now (i + 1) rs (ps', rem[nat r := b - quantum * k])))"

text \<open>Lines 92 to 96: the inner loop over the ready queue, one round of the trace.\<close>

fun emit_round :: "int \<Rightarrow> int list \<Rightarrow> state \<Rightarrow> error + state" where
  "emit_round max_seq_len [] s = Inr s"
| "emit_round max_seq_len (r # rs) s =
     ebind (push_seq max_seq_len r s) (emit_round max_seq_len rs)"

text \<open>
  Lines 91 to 97: the outer loop \<open>for(i = 0; i < k && i < max_seq_len; i++)\<close> runs
  \<open>nat (min k max_seq_len)\<close> times.
\<close>

fun emit_rounds :: "nat \<Rightarrow> int \<Rightarrow> int list \<Rightarrow> state \<Rightarrow> error + state" where
  "emit_rounds 0 max_seq_len rs s = Inr s"
| "emit_rounds (Suc c) max_seq_len rs s =
     ebind (emit_round max_seq_len rs s) (emit_rounds c max_seq_len rs)"

text \<open>Lines 84 to 97 (and 193 to 206): \<open>k\<close> rounds applied at once.\<close>

definition bulk :: "int \<Rightarrow> int \<Rightarrow> int \<Rightarrow> state \<Rightarrow> error + state" where
  "bulk quantum max_seq_len k s =
     ebind (stagger quantum k (curr_time s) 0 (rq s) (processes s, remaining_bursts s))
       (\<lambda>(ps, rem).
     emit_rounds (nat (min k max_seq_len)) max_seq_len (rq s)
       (s\<lparr>processes := ps, remaining_bursts := rem,
          curr_time := curr_time s + int (length (rq s)) * quantum * k\<rparr>))"

text \<open>Lines 64 to 99: the bulk skip while processes are pending.\<close>

definition bulk_skip_pending :: "int \<Rightarrow> int \<Rightarrow> state \<Rightarrow> error + state" where
  "bulk_skip_pending quantum max_seq_len s =
     ebind (at (rq s) 0) (\<lambda>r0.
     ebind (at (remaining_bursts s) r0) (\<lambda>b0.
     ebind (scan quantum (remaining_bursts s) (rq s) b0) (\<lambda>(flag, min_bursts).
     ebind (rounds min_bursts quantum) (\<lambda>n.
     ebind (at (jq s) 0) (\<lambda>j0.
     ebind (at (processes s) j0) (\<lambda>pj.
     ebind (quot (arrival_time pj - curr_time s) (int (length (rq s)) * quantum)) (\<lambda>m.
       if curr_time s + int (length (rq s)) * quantum < arrival_time pj then
         (if flag then bulk quantum max_seq_len (min n m) s else Inr s)
       else Inr s)))))))"

text \<open>Lines 175 to 207: the bulk skip when nothing is pending.\<close>

definition bulk_skip_idle :: "int \<Rightarrow> int \<Rightarrow> state \<Rightarrow> error + state" where
  "bulk_skip_idle quantum max_seq_len s =
     ebind (at (rq s) 0) (\<lambda>r0.
     ebind (at (remaining_bursts s) r0) (\<lambda>b0.
     ebind (scan quantum (remaining_bursts s) (rq s) b0) (\<lambda>(flag, min_bursts).
     ebind (rounds min_bursts quantum) (\<lambda>n.
       if flag then bulk quantum max_seq_len n s else Inr s))))"

text \<open>Lines 115 to 118: the pending processes that arrived before \<open>now\<close> join the ready queue.\<close>

fun drain :: "int \<Rightarrow> process list \<Rightarrow> int list \<Rightarrow> int list \<Rightarrow> error + int list \<times> int list" where
  "drain now ps ready [] = Inr (ready, [])"
| "drain now ps ready (j # js) =
     ebind (at ps j) (\<lambda>p.
       if arrival_time p < now then drain now ps (ready @ [j]) js
       else Inr (ready, j # js))"

text \<open>
  Lines 106 to 113 (and 212 to 219): the head of the ready queue runs for one quantum.
  \<open>r0\<close> is \<open>rq.at(0)\<close> and \<open>b\<close> its remaining burst.
\<close>

definition run_quantum :: "int \<Rightarrow> int \<Rightarrow> int \<Rightarrow> int \<Rightarrow> state \<Rightarrow> error + state" where
  "run_quantum quantum max_seq_len r0 b s =
     ebind (set_start r0 (curr_time s) (processes s)) (\<lambda>ps.
     ebind (push_seq max_seq_len r0 (s\<lparr>processes := ps, curr_time := curr_time s + quantum\<rparr>))
       (\<lambda>s1.
     ebind (set_remaining r0 (b - quantum) (remaining_bursts s1)) (\<lambda>rem.
       Inr (s1\<lparr>remaining_bursts := rem\<rparr>))))"

text \<open>
  Lines 136 to 145 (and 228 to 237, and 159 to 168 with the last two assignments swapped):
  the head of the ready queue runs to completion and leaves the queue.
\<close>

definition run_to_completion :: "int \<Rightarrow> int \<Rightarrow> int \<Rightarrow> state \<Rightarrow> error + state" where
  "run_to_completion max_seq_len r0 b s =
     ebind (set_start r0 (curr_time s) (processes s)) (\<lambda>ps.
     ebind (push_seq max_seq_len r0 (s\<lparr>processes := ps, curr_time := curr_time s + b\<rparr>))
       (\<lambda>s1.
     ebind (set_remaining r0 0 (remaining_bursts s1)) (\<lambda>rem.
     ebind (set_finish r0 (curr_time s1) (processes s1)) (\<lambda>ps1.
       Inr (s1\<lparr>remaining_bursts := rem, processes := ps1, rq := tl (rq s1)\<rparr>)))))"

text \<open>Lines 105 to 131: the single-quantum preemption step while processes are pending.\<close>

definition preempt_pending :: "int \<Rightarrow> int \<Rightarrow> int \<Rightarrow> int \<Rightarrow> state \<Rightarrow> error + state" where
  "preempt_pending quantum max_seq_len r0 b s =
     ebind (run_quantum quantum max_seq_len r0 b s) (\<lambda>s1.
     ebind (drain (curr_time s1) (processes s1) (rq s1) (jq s1)) (\<lambda>(ready, pending).
     ebind (requeue ready) (\<lambda>ready'.
       case pending of
         [] \<Rightarrow> Inr (s1\<lparr>rq := ready', jq := []\<rparr>)
       | j # js \<Rightarrow>
           ebind (at (processes s1) j) (\<lambda>pj.
             if arrival_time pj = curr_time s1
             then Inr (s1\<lparr>rq := ready' @ [j], jq := js\<rparr>)
             else Inr (s1\<lparr>rq := ready', jq := j # js\<rparr>)))))"

text \<open>Lines 135 to 151: the completion step while processes are pending.\<close>

definition complete_pending :: "int \<Rightarrow> int \<Rightarrow> int \<Rightarrow> state \<Rightarrow> error + state" where
  "complete_pending max_seq_len r0 b s =
     ebind (run_to_completion max_seq_len r0 b s) (\<lambda>s1.
     ebind (at (jq s1) 0) (\<lambda>j0.
     ebind (at (processes s1) j0) (\<lambda>pj.
       if arrival_time pj \<le> curr_time s1
       then Inr (s1\<lparr>rq := rq s1 @ [j0], jq := tl (jq s1)\<rparr>)
       else Inr s1)))"

text \<open>Lines 105 to 151: one of the two single steps, by the remaining burst of the head.\<close>

definition step_pending :: "int \<Rightarrow> int \<Rightarrow> state \<Rightarrow> error + state" where
  "step_pending quantum max_seq_len s =
     ebind (at (rq s) 0) (\<lambda>r0.
     ebind (at (remaining_bursts s) r0) (\<lambda>b.
       if b > quantum then preempt_pending quantum max_seq_len r0 b s
       else complete_pending max_seq_len r0 b s))"

text \<open>Lines 211 to 239: the single steps when nothing is pending.\<close>

definition step_idle :: "int \<Rightarrow> int \<Rightarrow> state \<Rightarrow> error + state" where
  "step_idle quantum max_seq_len s =
     ebind (at (rq s) 0) (\<lambda>r0.
     ebind (at (remaining_bursts s) r0) (\<lambda>b.
       if b > quantum then
         ebind (run_quantum quantum max_seq_len r0 b s) (\<lambda>s1.
         ebind (requeue (rq s1)) (\<lambda>ready'. Inr (s1\<lparr>rq := ready'\<rparr>)))
       else run_to_completion max_seq_len r0 b s))"

text \<open>Lines 39 to 49: the bootstrap dispatch. The idle marker is pushed without the cap.\<close>

definition bootstrap :: "int \<Rightarrow> state \<Rightarrow> error + state" where
  "bootstrap max_seq_len s =
     (if rq s = [] \<and> jq s \<noteq> [] then
        ebind (at (jq s) 0) (\<lambda>j0.
        ebind (at (processes s) j0) (\<lambda>p.
          Inr (s\<lparr>rq := [j0], jq := tl (jq s), curr_time := arrival_time p,
                 seq := seq s @
                   [if int (length (seq s)) < max_seq_len \<and> arrival_time p = 0 then j0 else - 1],
                 bootstraps := Suc (bootstraps s)\<rparr>)))
      else Inr s)"

text \<open>Lines 52 to 152: processes in progress and processes pending.\<close>

definition pending_branch :: "int \<Rightarrow> int \<Rightarrow> state \<Rightarrow> error + flow" where
  "pending_branch quantum max_seq_len s =
     ebind (at (jq s) 0) (\<lambda>j0.
     ebind (at (processes s) j0) (\<lambda>pj.
       if arrival_time pj = curr_time s
       then Inr (Continue (s\<lparr>rq := rq s @ [j0], jq := tl (jq s)\<rparr>))
       else
         ebind (bulk_skip_pending quantum max_seq_len s) (\<lambda>s1.
         ebind (step_pending quantum max_seq_len s1) (\<lambda>s2. Inr (Continue s2)))))"

text \<open>Lines 155 to 240: processes in progress and nothing pending.\<close>

definition idle_branch :: "int \<Rightarrow> int \<Rightarrow> state \<Rightarrow> error + flow" where
  "idle_branch quantum max_seq_len s =
     (if length (rq s) = 1 then
        ebind (at (rq s) 0) (\<lambda>r0.
        ebind (at (remaining_bursts s) r0) (\<lambda>b.
        ebind (run_to_completion max_seq_len r0 b s) (\<lambda>s1. Inr (Break s1))))
      else
        ebind (bulk_skip_idle quantum max_seq_len s) (\<lambda>s1.
        ebind (step_idle quantum max_seq_len s1) (\<lambda>s2. Inr (Continue s2))))"

text \<open>Lines 32 to 240: the body of \<open>while(true)\<close>.\<close>

definition iteration :: "int \<Rightarrow> int \<Rightarrow> state \<Rightarrow> error + flow" where
  "iteration quantum max_seq_len s =
     (if rq s = [] \<and> jq s = [] then Inr (Break s)
      else
        ebind (bootstrap max_seq_len s) (\<lambda>s1.
          if rq s1 \<noteq> [] \<and> jq s1 \<noteq> [] then pending_branch quantum max_seq_len s1
          else if rq s1 \<noteq> [] \<and> jq s1 = [] then idle_branch quantum max_seq_len s1
          else Inr (Continue s1)))"

partial_function (option) loop :: "int \<Rightarrow> int \<Rightarrow> state \<Rightarrow> (error + state) option" where
  "loop quantum max_seq_len s =
     (case iteration quantum max_seq_len s of
        Inl e \<Rightarrow> Some (Inl e)
      | Inr (Break s') \<Rightarrow> Some (Inr s')
      | Inr (Continue s') \<Rightarrow> loop quantum max_seq_len s')"

declare loop.simps [code]

text \<open>Lines 21 to 29: the state at the first test of the loop.\<close>

definition init :: "process list \<Rightarrow> state" where
  "init ps = \<lparr>curr_time = 0, rq = [], jq = map pid ps, remaining_bursts = map burst ps,
     processes = ps, seq = [], bootstraps = 0\<rparr>"

text \<open>\<open>simulate_rr\<close>: the two outputs are the process list and the trace.\<close>

definition simulate_rr :: "int \<Rightarrow> int \<Rightarrow> process list \<Rightarrow> (error + process list \<times> int list) option" where
  "simulate_rr quantum max_seq_len ps =
     map_option (map_sum (\<lambda>e. e) (\<lambda>s. (processes s, seq s))) (loop quantum max_seq_len (init ps))"

subsection \<open>The variant without the bulk skip\<close>

text \<open>
  The comparison program of the spec's equivalence property: the same loop with lines 60 to
  99 and 172 to 207 removed, so that time always advances by one single step.
\<close>

definition pending_branch_naive :: "int \<Rightarrow> int \<Rightarrow> state \<Rightarrow> error + flow" where
  "pending_branch_naive quantum max_seq_len s =
     ebind (at (jq s) 0) (\<lambda>j0.
     ebind (at (processes s) j0) (\<lambda>pj.
       if arrival_time pj = curr_time s
       then Inr (Continue (s\<lparr>rq := rq s @ [j0], jq := tl (jq s)\<rparr>))
       else ebind (step_pending quantum max_seq_len s) (\<lambda>s2. Inr (Continue s2))))"

definition idle_branch_naive :: "int \<Rightarrow> int \<Rightarrow> state \<Rightarrow> error + flow" where
  "idle_branch_naive quantum max_seq_len s =
     (if length (rq s) = 1 then
        ebind (at (rq s) 0) (\<lambda>r0.
        ebind (at (remaining_bursts s) r0) (\<lambda>b.
        ebind (run_to_completion max_seq_len r0 b s) (\<lambda>s1. Inr (Break s1))))
      else ebind (step_idle quantum max_seq_len s) (\<lambda>s2. Inr (Continue s2)))"

definition iteration_naive :: "int \<Rightarrow> int \<Rightarrow> state \<Rightarrow> error + flow" where
  "iteration_naive quantum max_seq_len s =
     (if rq s = [] \<and> jq s = [] then Inr (Break s)
      else
        ebind (bootstrap max_seq_len s) (\<lambda>s1.
          if rq s1 \<noteq> [] \<and> jq s1 \<noteq> [] then pending_branch_naive quantum max_seq_len s1
          else if rq s1 \<noteq> [] \<and> jq s1 = [] then idle_branch_naive quantum max_seq_len s1
          else Inr (Continue s1)))"

partial_function (option) loop_naive :: "int \<Rightarrow> int \<Rightarrow> state \<Rightarrow> (error + state) option" where
  "loop_naive quantum max_seq_len s =
     (case iteration_naive quantum max_seq_len s of
        Inl e \<Rightarrow> Some (Inl e)
      | Inr (Break s') \<Rightarrow> Some (Inr s')
      | Inr (Continue s') \<Rightarrow> loop_naive quantum max_seq_len s')"

declare loop_naive.simps [code]


subsection \<open>Concrete inputs\<close>

text \<open>Scenario B of the spec: two processes, the second arriving during the first quantum.\<close>

definition scenario_B :: "process list" where
  "scenario_B =
     [\<lparr>pid = 0, arrival_time = 0, burst = 4, start_time = - 1, finish_time = - 1\<rparr>,
      \<lparr>pid = 1, arrival_time = 1, burst = 4, start_time = - 1, finish_time = - 1\<rparr>]"

definition scenario_B_result :: "process list" where
  "scenario_B_result =
     [\<lparr>pid = 0, arrival_time = 0, burst = 4, start_time = 0, finish_time = 6\<rparr>,
      \<lparr>pid = 1, arrival_time = 1, burst = 4, start_time = 2, finish_time = 8\<rparr>]"

text \<open>Three short processes separated by idle gaps.\<close>

definition gaps :: "process list" where
  "gaps =
     [\<lparr>pid = 0, arrival_time = 0, burst = 1, start_time = - 1, finish_time = - 1\<rparr>,
      \<lparr>pid = 1, arrival_time = 5, burst = 1, start_time = - 1, finish_time = - 1\<rparr>,
      \<lparr>pid = 2, arrival_time = 10, burst = 1, start_time = - 1, finish_time = - 1\<rparr>]"

definition gaps_result :: "process list" where
  "gaps_result =
     [\<lparr>pid = 0, arrival_time = 0, burst = 1, start_time = 0, finish_time = 1\<rparr>,
      \<lparr>pid = 1, arrival_time = 5, burst = 1, start_time = 5, finish_time = 6\<rparr>,
      \<lparr>pid = 2, arrival_time = 10, burst = 1, start_time = 10, finish_time = 11\<rparr>]"


subsection \<open>Well-formed inputs and the invariant of the loop\<close>


primrec flow_state :: "flow \<Rightarrow> state" where
  "flow_state (Continue s) = s"
| "flow_state (Break s) = s"

text \<open>
  What keeps every access in range: the two tables have one length, the queues hold
  indices into them, and the trace is not empty once a process is ready.
\<close>

definition valid :: "state \<Rightarrow> bool" where
  "valid s \<longleftrightarrow>
     length (remaining_bursts s) = length (processes s) \<and>
     (\<forall>r \<in> set (rq s) \<union> set (jq s). 0 \<le> r \<and> r < int (length (processes s))) \<and>
     (rq s \<noteq> [] \<longrightarrow> seq s \<noteq> [])"

text \<open>
  The invariant of the loop: no process is queued twice, every queued process has work
  left, time and arrivals are not negative.
\<close>

definition arrivals_ok :: "state \<Rightarrow> bool" where
  "arrivals_ok s \<longleftrightarrow> (\<forall>i < length (processes s). 0 \<le> arrival_time (processes s ! i))"

definition inv :: "state \<Rightarrow> bool" where
  "inv s \<longleftrightarrow>
     valid s \<and> distinct (rq s @ jq s) \<and>
     (\<forall>r \<in> set (rq s) \<union> set (jq s). 0 < remaining_bursts s ! nat r) \<and>
     0 \<le> curr_time s \<and> arrivals_ok s"

text \<open>The work left, and the measure that every iteration lowers.\<close>

definition work :: "state \<Rightarrow> nat" where
  "work s = sum_list (map nat (remaining_bursts s))"

definition effort :: "state \<Rightarrow> nat" where
  "effort s = work s + length (jq s)"




text \<open>The part of a state that decides the schedule: everything but the trace and the counter.\<close>

definition schedule :: "state \<Rightarrow> int \<times> int list \<times> int list \<times> int list \<times> process list" where
  "schedule s = (curr_time s, rq s, jq s, remaining_bursts s, processes s)"


text \<open>Start times: a time that is set stays as it is.\<close>

definition keeps_starts :: "process list \<Rightarrow> process list \<Rightarrow> bool" where
  "keeps_starts ps ps' \<longleftrightarrow>
     length ps' = length ps \<and>
     (\<forall>i < length ps. start_time (ps ! i) \<noteq> - 1 \<longrightarrow> start_time (ps' ! i) = start_time (ps ! i))"

text \<open>
  Start times: every change sets the unset start time of a process of the set \<open>ready\<close>
  to a time that is at least \<open>now\<close>.
\<close>

definition later_starts :: "int \<Rightarrow> int set \<Rightarrow> process list \<Rightarrow> process list \<Rightarrow> bool" where
  "later_starts now ready ps ps' \<longleftrightarrow>
     length ps' = length ps \<and>
     (\<forall>k < length ps. start_time (ps' ! k) = start_time (ps ! k) \<or>
        start_time (ps ! k) = - 1 \<and> now \<le> start_time (ps' ! k) \<and> int k \<in> ready)"


subsection \<open>Closed forms of the steps\<close>

text \<open>
  The functions of this subsection are not part of the program. Each one is the state that
  a step of the model returns when no access fails; the lemmas of the section on
  properties connect each of them to the model.
\<close>

definition start_upd :: "nat \<Rightarrow> int \<Rightarrow> process list \<Rightarrow> process list" where
  "start_upd i t ps = (if start_time (ps ! i) = - 1 then ps[i := (ps ! i)\<lparr>start_time := t\<rparr>] else ps)"

definition finish_upd :: "nat \<Rightarrow> int \<Rightarrow> process list \<Rightarrow> process list" where
  "finish_upd i t ps = ps[i := (ps ! i)\<lparr>finish_time := t\<rparr>]"

definition pushed :: "int \<Rightarrow> int \<Rightarrow> int list \<Rightarrow> int list" where
  "pushed max_seq_len x xs =
     (if int (length xs) < max_seq_len \<and> last xs \<noteq> x then xs @ [x] else xs)"

definition arrival :: "state \<Rightarrow> int \<Rightarrow> int" where
  "arrival s j = arrival_time (processes s ! nat j)"

definition remaining :: "state \<Rightarrow> int \<Rightarrow> int" where
  "remaining s r = remaining_bursts s ! nat r"

definition booted :: "int \<Rightarrow> state \<Rightarrow> state" where
  "booted max_seq_len s =
     (if rq s = [] \<and> jq s \<noteq> [] then
        s\<lparr>rq := [hd (jq s)], jq := tl (jq s), curr_time := arrival s (hd (jq s)),
          seq := seq s @
            [if int (length (seq s)) < max_seq_len \<and> arrival s (hd (jq s)) = 0
             then hd (jq s) else - 1],
          bootstraps := Suc (bootstraps s)\<rparr>
      else s)"

definition admitted :: "state \<Rightarrow> state" where
  "admitted s = s\<lparr>rq := rq s @ [hd (jq s)], jq := tl (jq s)\<rparr>"

definition ran_quantum :: "int \<Rightarrow> int \<Rightarrow> state \<Rightarrow> state" where
  "ran_quantum quantum max_seq_len s =
     s\<lparr>processes := start_upd (nat (hd (rq s))) (curr_time s) (processes s),
       curr_time := curr_time s + quantum,
       seq := pushed max_seq_len (hd (rq s)) (seq s),
       remaining_bursts :=
         (remaining_bursts s)[nat (hd (rq s)) := remaining s (hd (rq s)) - quantum]\<rparr>"

definition ran_out :: "int \<Rightarrow> state \<Rightarrow> state" where
  "ran_out max_seq_len s =
     s\<lparr>processes :=
         finish_upd (nat (hd (rq s))) (curr_time s + remaining s (hd (rq s)))
           (start_upd (nat (hd (rq s))) (curr_time s) (processes s)),
       curr_time := curr_time s + remaining s (hd (rq s)),
       seq := pushed max_seq_len (hd (rq s)) (seq s),
       remaining_bursts := (remaining_bursts s)[nat (hd (rq s)) := 0],
       rq := tl (rq s)\<rparr>"

definition preempted :: "int \<Rightarrow> int \<Rightarrow> state \<Rightarrow> state" where
  "preempted quantum max_seq_len s =
     (let s1 = ran_quantum quantum max_seq_len s;
          early = takeWhile (\<lambda>j. arrival s1 j < curr_time s1) (jq s1);
          pending = dropWhile (\<lambda>j. arrival s1 j < curr_time s1) (jq s1)
      in if pending \<noteq> [] \<and> arrival s1 (hd pending) = curr_time s1
         then s1\<lparr>rq := tl (rq s1) @ early @ [hd (rq s1), hd pending], jq := tl pending\<rparr>
         else s1\<lparr>rq := tl (rq s1) @ early @ [hd (rq s1)], jq := pending\<rparr>)"

definition completed :: "int \<Rightarrow> state \<Rightarrow> state" where
  "completed max_seq_len s =
     (let s1 = ran_out max_seq_len s
      in if arrival s1 (hd (jq s1)) \<le> curr_time s1 then admitted s1 else s1)"

definition stepped_pending :: "int \<Rightarrow> int \<Rightarrow> state \<Rightarrow> state" where
  "stepped_pending quantum max_seq_len s =
     (if quantum < remaining s (hd (rq s)) then preempted quantum max_seq_len s
      else completed max_seq_len s)"

definition stepped_idle :: "int \<Rightarrow> int \<Rightarrow> state \<Rightarrow> state" where
  "stepped_idle quantum max_seq_len s =
     (if quantum < remaining s (hd (rq s))
      then (ran_quantum quantum max_seq_len s)\<lparr>rq := tl (rq s) @ [hd (rq s)]\<rparr>
      else ran_out max_seq_len s)"

fun staggered :: "int \<Rightarrow> int \<Rightarrow> int \<Rightarrow> int list \<Rightarrow> process list \<Rightarrow> process list" where
  "staggered quantum now i [] ps = ps"
| "staggered quantum now i (r # rs) ps =
     staggered quantum now (i + 1) rs (start_upd (nat r) (now + quantum * i) ps)"

fun lowered :: "int \<Rightarrow> int list \<Rightarrow> int list \<Rightarrow> int list" where
  "lowered d [] rem = rem"
| "lowered d (r # rs) rem = lowered d rs (rem[nat r := rem ! nat r - d])"

definition bulked :: "int \<Rightarrow> int \<Rightarrow> int \<Rightarrow> state \<Rightarrow> state" where
  "bulked quantum max_seq_len k s =
     s\<lparr>processes := staggered quantum (curr_time s) 0 (rq s) (processes s),
       remaining_bursts := lowered (quantum * k) (rq s) (remaining_bursts s),
       curr_time := curr_time s + int (length (rq s)) * quantum * k,
       seq := ((fold (pushed max_seq_len) (rq s)) ^^ nat (min k max_seq_len)) (seq s)\<rparr>"

definition all_above :: "int \<Rightarrow> state \<Rightarrow> bool" where
  "all_above quantum s \<longleftrightarrow> (\<forall>r \<in> set (rq s). quantum < remaining s r)"

definition least :: "state \<Rightarrow> int" where
  "least s = fold (\<lambda>r m. if remaining s r < m then remaining s r else m) (rq s)
     (remaining s (hd (rq s)))"

definition full_rounds :: "int \<Rightarrow> state \<Rightarrow> int" where
  "full_rounds quantum s =
     (if least s smod quantum = 0 then least s sdiv quantum - 1 else least s sdiv quantum)"


definition bulked_pending :: "int \<Rightarrow> int \<Rightarrow> state \<Rightarrow> state" where
  "bulked_pending quantum max_seq_len s =
     (if curr_time s + int (length (rq s)) * quantum < arrival s (hd (jq s)) \<and> all_above quantum s
      then bulked quantum max_seq_len
             (min (full_rounds quantum s)
                ((arrival s (hd (jq s)) - curr_time s) sdiv (int (length (rq s)) * quantum))) s
      else s)"

definition bulked_idle :: "int \<Rightarrow> int \<Rightarrow> state \<Rightarrow> state" where
  "bulked_idle quantum max_seq_len s =
     (if all_above quantum s then bulked quantum max_seq_len (full_rounds quantum s) s else s)"

definition branched :: "int \<Rightarrow> int \<Rightarrow> state \<Rightarrow> flow" where
  "branched quantum max_seq_len s =
     (if jq s \<noteq> [] then
        (if arrival s (hd (jq s)) = curr_time s then Continue (admitted s)
         else Continue (stepped_pending quantum max_seq_len (bulked_pending quantum max_seq_len s)))
      else if length (rq s) = 1 then Break (ran_out max_seq_len s)
      else Continue (stepped_idle quantum max_seq_len (bulked_idle quantum max_seq_len s)))"


text \<open>
  One single step of the variant without the bulk skip when nobody arrives and nobody
  finishes: the head runs for a quantum and goes to the tail. \<open>served\<close> is the effect of
  a sequence of such steps on everything but the ready queue.
\<close>

definition ticked :: "int \<Rightarrow> int \<Rightarrow> state \<Rightarrow> state" where
  "ticked quantum max_seq_len s =
     (ran_quantum quantum max_seq_len s)\<lparr>rq := tl (rq s) @ [hd (rq s)]\<rparr>"



definition branched_naive :: "int \<Rightarrow> int \<Rightarrow> state \<Rightarrow> flow" where
  "branched_naive quantum max_seq_len s =
     (if jq s \<noteq> [] then
        (if arrival s (hd (jq s)) = curr_time s then Continue (admitted s)
         else Continue (stepped_pending quantum max_seq_len s))
      else if length (rq s) = 1 then Break (ran_out max_seq_len s)
      else Continue (stepped_idle quantum max_seq_len s))"

definition iterated_naive :: "int \<Rightarrow> int \<Rightarrow> state \<Rightarrow> flow" where
  "iterated_naive quantum max_seq_len s =
     (if rq s = [] \<and> jq s = [] then Break s
      else branched_naive quantum max_seq_len (booted max_seq_len s))"

text \<open>
  A state in the middle of a run: process 0 is ready at time 0 with five units left,
  processes 1 and 2 are pending and arrive at 1 and 2.
\<close>

definition tie_state :: state where
  "tie_state = \<lparr>curr_time = 0, rq = [0], jq = [1, 2], remaining_bursts = [5, 1, 1],
     processes =
       [\<lparr>pid = 0, arrival_time = 0, burst = 5, start_time = - 1, finish_time = - 1\<rparr>,
        \<lparr>pid = 1, arrival_time = 1, burst = 1, start_time = - 1, finish_time = - 1\<rparr>,
        \<lparr>pid = 2, arrival_time = 2, burst = 1, start_time = - 1, finish_time = - 1\<rparr>],
     seq = [0], bootstraps = 1\<rparr>"

definition tie_result :: state where
  "tie_result = \<lparr>curr_time = 2, rq = [1, 0, 2], jq = [], remaining_bursts = [3, 1, 1],
     processes =
       [\<lparr>pid = 0, arrival_time = 0, burst = 5, start_time = 0, finish_time = - 1\<rparr>,
        \<lparr>pid = 1, arrival_time = 1, burst = 1, start_time = - 1, finish_time = - 1\<rparr>,
        \<lparr>pid = 2, arrival_time = 2, burst = 1, start_time = - 1, finish_time = - 1\<rparr>],
     seq = [0], bootstraps = 1\<rparr>"



section \<open>Properties\<close>

subsection \<open>Unfolding the model\<close>

lemmas step_defs = iteration_def bootstrap_def pending_branch_def idle_branch_def
  bulk_skip_pending_def bulk_skip_idle_def bulk_def step_pending_def step_idle_def
  preempt_pending_def complete_pending_def run_quantum_def run_to_completion_def
  push_seq_def set_start_def set_finish_def set_remaining_def requeue_def rounds_def
  quot_def remainder_def at_def ebind_def

subsection \<open>Scenario B\<close>

text \<open>
  C2, as the code runs it. With quantum 2 and a cap of at least four entries the trace of
  scenario B is 0, 1, 0, 1; process 0 starts at 0 and finishes at 6, process 1 starts at 2
  and finishes at 8.
\<close>

theorem scenario_B_run:
  "4 \<le> max_seq_len \<Longrightarrow>
   simulate_rr 2 max_seq_len scenario_B = Some (Inr (scenario_B_result, [0, 1, 0, 1]))"
  apply (simp add: scenario_B_def scenario_B_result_def simulate_rr_def init_def)
  apply (subst loop.simps, simp add: step_defs)
  apply (subst loop.simps, simp add: step_defs)
  apply (subst loop.simps, simp add: step_defs)
  apply (subst loop.simps, simp add: step_defs)
  done

theorem scenario_B_run_witness:
  "(4::int) \<le> 100 \<and>
   simulate_rr 2 100 scenario_B = Some (Inr (scenario_B_result, [0, 1, 0, 1]))"
  using scenario_B_run [of 100] by simp

text \<open>
  C2 as the spec states it asks for process 0 to finish at 8. In the run with a cap of 100
  entries process 0 finishes at 6.
\<close>

theorem scenario_B_finish_counterexample:
  "simulate_rr 2 100 scenario_B = Some (Inr (scenario_B_result, [0, 1, 0, 1]))
   \<and> finish_time (scenario_B_result ! 0) \<noteq> 8"
  by (simp add: scenario_B_result_def) code_simp

subsection \<open>Idle gaps under a small cap\<close>

text \<open>
  C4 at a failing input. With quantum 1 and a cap of one entry, the three processes of
  \<open>gaps\<close> leave the trace 0, -1, -1: two idle markers in a row, in a trace of three entries.
\<close>

theorem gaps_trace_repeats_idle:
  "simulate_rr 1 1 gaps = Some (Inr (gaps_result, [0, - 1, - 1]))"
  by code_simp

subsection \<open>The error monad and the checked accesses\<close>

lemma ebind_Inr [simp]: "ebind (Inr x) f = f x"
  by (simp add: ebind_def)

lemma ebind_Inl [simp]: "ebind (Inl e) f = Inl e"
  by (simp add: ebind_def)

lemma ebind_eq_Inr: "ebind m f = Inr y \<longleftrightarrow> (\<exists>x. m = Inr x \<and> f x = Inr y)"
  by (cases m) simp_all

lemma at_in_range: "0 \<le> i \<Longrightarrow> i < int (length xs) \<Longrightarrow> at xs i = Inr (xs ! nat i)"
  by (simp add: at_def)

lemma at_eq_Inr: "at xs i = Inr x \<longleftrightarrow> 0 \<le> i \<and> i < int (length xs) \<and> x = xs ! nat i"
  by (auto simp: at_def)

lemma at_head: "xs \<noteq> [] \<Longrightarrow> at xs 0 = Inr (hd xs)"
  by (cases xs) (simp_all add: at_def)

lemma set_start_in_range:
  "0 \<le> i \<Longrightarrow> i < int (length ps) \<Longrightarrow> set_start i t ps = Inr (start_upd (nat i) t ps)"
  by (simp add: set_start_def at_in_range start_upd_def)

lemma set_finish_in_range:
  "0 \<le> i \<Longrightarrow> i < int (length ps) \<Longrightarrow> set_finish i t ps = Inr (finish_upd (nat i) t ps)"
  by (simp add: set_finish_def at_in_range finish_upd_def)

lemma set_remaining_in_range:
  "0 \<le> i \<Longrightarrow> i < int (length rem) \<Longrightarrow> set_remaining i v rem = Inr (rem[nat i := v])"
  by (simp add: set_remaining_def at_in_range)

lemma push_seq_nonempty:
  "seq s \<noteq> [] \<Longrightarrow> push_seq max_seq_len x s = Inr (s\<lparr>seq := pushed max_seq_len x (seq s)\<rparr>)"
  by (simp add: push_seq_def pushed_def)

lemma requeue_nonempty: "xs \<noteq> [] \<Longrightarrow> requeue xs = Inr (tl xs @ [hd xs])"
  by (cases xs) (simp_all add: requeue_def at_def)

lemma length_start_upd [simp]: "length (start_upd i t ps) = length ps"
  by (simp add: start_upd_def)

lemma length_finish_upd [simp]: "length (finish_upd i t ps) = length ps"
  by (simp add: finish_upd_def)

lemma pushed_nonempty [simp]: "xs \<noteq> [] \<Longrightarrow> pushed max_seq_len x xs \<noteq> []"
  by (simp add: pushed_def)

subsection \<open>The single steps return their closed forms\<close>

lemma valid_head:
  "valid s \<Longrightarrow> rq s \<noteq> [] \<Longrightarrow>
   0 \<le> hd (rq s) \<and> hd (rq s) < int (length (processes s)) \<and>
   hd (rq s) < int (length (remaining_bursts s)) \<and> seq s \<noteq> []"
  by (cases "rq s") (auto simp: valid_def)

lemma valid_pending_head:
  "valid s \<Longrightarrow> jq s \<noteq> [] \<Longrightarrow> 0 \<le> hd (jq s) \<and> hd (jq s) < int (length (processes s))"
  by (cases "jq s") (auto simp: valid_def)

lemma run_quantum_closed:
  assumes "valid s" "rq s \<noteq> []"
  shows "run_quantum quantum max_seq_len (hd (rq s)) (remaining s (hd (rq s))) s
         = Inr (ran_quantum quantum max_seq_len s)"
  using valid_head [OF assms]
  by (simp add: run_quantum_def ran_quantum_def set_start_in_range push_seq_nonempty
      set_remaining_in_range remaining_def)

lemma run_to_completion_closed:
  assumes "valid s" "rq s \<noteq> []"
  shows "run_to_completion max_seq_len (hd (rq s)) (remaining s (hd (rq s))) s
         = Inr (ran_out max_seq_len s)"
  using valid_head [OF assms]
  by (simp add: run_to_completion_def ran_out_def set_start_in_range push_seq_nonempty
      set_remaining_in_range set_finish_in_range remaining_def)

lemma drain_closed:
  "\<forall>j \<in> set js. 0 \<le> j \<and> j < int (length ps) \<Longrightarrow>
   drain now ps ready js =
     Inr (ready @ takeWhile (\<lambda>j. arrival_time (ps ! nat j) < now) js,
          dropWhile (\<lambda>j. arrival_time (ps ! nat j) < now) js)"
  by (induction js arbitrary: ready) (simp_all add: at_in_range)

lemma ran_quantum_fields [simp]:
  "rq (ran_quantum quantum max_seq_len s) = rq s"
  "jq (ran_quantum quantum max_seq_len s) = jq s"
  "curr_time (ran_quantum quantum max_seq_len s) = curr_time s + quantum"
  "bootstraps (ran_quantum quantum max_seq_len s) = bootstraps s"
  "length (processes (ran_quantum quantum max_seq_len s)) = length (processes s)"
  "length (remaining_bursts (ran_quantum quantum max_seq_len s)) = length (remaining_bursts s)"
  "seq (ran_quantum quantum max_seq_len s) = pushed max_seq_len (hd (rq s)) (seq s)"
  by (simp_all add: ran_quantum_def)

lemma ran_out_fields [simp]:
  "rq (ran_out max_seq_len s) = tl (rq s)"
  "jq (ran_out max_seq_len s) = jq s"
  "curr_time (ran_out max_seq_len s) = curr_time s + remaining s (hd (rq s))"
  "bootstraps (ran_out max_seq_len s) = bootstraps s"
  "length (processes (ran_out max_seq_len s)) = length (processes s)"
  "length (remaining_bursts (ran_out max_seq_len s)) = length (remaining_bursts s)"
  "seq (ran_out max_seq_len s) = pushed max_seq_len (hd (rq s)) (seq s)"
  by (simp_all add: ran_out_def)

lemma nth_update_field:
  assumes "\<And>p. f (g p) = f p"
  shows "f (ps[i := g (ps ! i)] ! k) = f (ps ! k)"
proof (cases "i < length ps")
  case True
  then show ?thesis by (simp add: nth_list_update assms)
next
  case False
  then have "ps[i := g (ps ! i)] = ps" by (simp add: list_update_beyond)
  then show ?thesis by simp
qed

lemma arrival_start_upd [simp]:
  "arrival_time (start_upd i t ps ! k) = arrival_time (ps ! k)"
  using nth_update_field [of arrival_time "\<lambda>p. p\<lparr>start_time := t\<rparr>" ps i k]
  by (simp add: start_upd_def)

lemma arrival_finish_upd [simp]:
  "arrival_time (finish_upd i t ps ! k) = arrival_time (ps ! k)"
  using nth_update_field [of arrival_time "\<lambda>p. p\<lparr>finish_time := t\<rparr>" ps i k]
  by (simp add: finish_upd_def)

lemma arrival_ran_quantum [simp]: "arrival (ran_quantum quantum max_seq_len s) = arrival s"
  by (rule ext) (simp add: arrival_def ran_quantum_def)

lemma arrival_ran_out [simp]: "arrival (ran_out max_seq_len s) = arrival s"
  by (rule ext) (simp add: arrival_def ran_out_def)

lemma preempt_pending_closed:
  assumes "valid s" "rq s \<noteq> []"
  shows "preempt_pending quantum max_seq_len (hd (rq s)) (remaining s (hd (rq s))) s
         = Inr (preempted quantum max_seq_len s)"
proof -
  let ?s1 = "ran_quantum quantum max_seq_len s"
  let ?P = "\<lambda>j. arrival s j < curr_time s + quantum"
  define early where "early = takeWhile ?P (jq s)"
  define pending where "pending = dropWhile ?P (jq s)"
  have jqv: "\<forall>j \<in> set (jq s). 0 \<le> j \<and> j < int (length (processes ?s1))"
    using assms(1) by (simp add: valid_def)
  have "(\<lambda>j. arrival_time (processes ?s1 ! nat j) < curr_time s + quantum) = ?P"
    by (simp add: arrival_def ran_quantum_def)
  then have dr: "drain (curr_time s + quantum) (processes ?s1) (rq s) (jq s)
              = Inr (rq s @ early, pending)"
    using drain_closed [OF jqv, of "curr_time s + quantum" "rq s"]
    by (simp add: early_def pending_def)
  have rqne: "rq s @ early \<noteq> []" using assms(2) by simp
  have tlhd: "tl (rq s @ early) = tl (rq s) @ early" "hd (rq s @ early) = hd (rq s)"
    using assms(2) by simp_all
  have arr: "arrival_time (processes ?s1 ! nat j) = arrival s j" for j
    by (simp add: arrival_def ran_quantum_def)
  have closed: "preempted quantum max_seq_len s =
     (if pending \<noteq> [] \<and> arrival s (hd pending) = curr_time s + quantum
      then ?s1\<lparr>rq := tl (rq s) @ early @ [hd (rq s), hd pending], jq := tl pending\<rparr>
      else ?s1\<lparr>rq := tl (rq s) @ early @ [hd (rq s)], jq := pending\<rparr>)"
    by (simp add: preempted_def Let_def early_def pending_def)
  have model: "preempt_pending quantum max_seq_len (hd (rq s)) (remaining s (hd (rq s))) s =
     (case pending of
        [] \<Rightarrow> Inr (?s1\<lparr>rq := tl (rq s) @ early @ [hd (rq s)], jq := []\<rparr>)
      | j # js \<Rightarrow>
          ebind (at (processes ?s1) j) (\<lambda>pj.
            if arrival_time pj = curr_time s + quantum
            then Inr (?s1\<lparr>rq := (tl (rq s) @ early @ [hd (rq s)]) @ [j], jq := js\<rparr>)
            else Inr (?s1\<lparr>rq := tl (rq s) @ early @ [hd (rq s)], jq := j # js\<rparr>)))"
    unfolding preempt_pending_def
    by (simp add: run_quantum_closed [OF assms] dr requeue_nonempty [OF rqne] tlhd
        cong: list.case_cong)
  show ?thesis
  proof (cases pending)
    case Nil
    then show ?thesis by (simp add: model closed)
  next
    case (Cons j js)
    then have "j \<in> set (jq s)"
      unfolding pending_def by (metis list.set_intros(1) set_dropWhileD)
    then have "at (processes ?s1) j = Inr (processes ?s1 ! nat j)"
      using assms(1) by (simp add: at_in_range valid_def)
    with Cons show ?thesis by (simp add: model closed arr)
  qed
qed


lemma complete_pending_closed:
  assumes "valid s" "rq s \<noteq> []" "jq s \<noteq> []"
  shows "complete_pending max_seq_len (hd (rq s)) (remaining s (hd (rq s))) s
         = Inr (completed max_seq_len s)"
proof -
  from valid_pending_head [OF assms(1,3)]
  have "at (processes (ran_out max_seq_len s)) (hd (jq s))
        = Inr (processes (ran_out max_seq_len s) ! nat (hd (jq s)))"
    by (simp add: at_in_range)
  then show ?thesis
    unfolding complete_pending_def
    by (simp add: run_to_completion_closed [OF assms(1,2)] at_head assms(3) completed_def
        Let_def admitted_def arrival_def)
qed

lemma step_pending_closed:
  assumes "valid s" "rq s \<noteq> []" "jq s \<noteq> []"
  shows "step_pending quantum max_seq_len s = Inr (stepped_pending quantum max_seq_len s)"
proof -
  from valid_head [OF assms(1,2)]
  have "at (remaining_bursts s) (hd (rq s)) = Inr (remaining s (hd (rq s)))"
    by (simp add: at_in_range remaining_def)
  then show ?thesis
    unfolding step_pending_def stepped_pending_def
    using preempt_pending_closed [OF assms(1,2)] complete_pending_closed [OF assms]
    by (simp add: at_head assms(2))
qed

lemma step_idle_closed:
  assumes "valid s" "rq s \<noteq> []"
  shows "step_idle quantum max_seq_len s = Inr (stepped_idle quantum max_seq_len s)"
proof -
  from valid_head [OF assms]
  have "at (remaining_bursts s) (hd (rq s)) = Inr (remaining s (hd (rq s)))"
    by (simp add: at_in_range remaining_def)
  then show ?thesis
    unfolding step_idle_def stepped_idle_def
    using run_quantum_closed [OF assms] run_to_completion_closed [OF assms]
    by (simp add: at_head assms(2) requeue_nonempty)
qed

lemma bootstrap_closed:
  assumes "valid s"
  shows "bootstrap max_seq_len s = Inr (booted max_seq_len s)"
proof (cases "rq s = [] \<and> jq s \<noteq> []")
  case True
  with valid_pending_head [OF assms]
  have "at (processes s) (hd (jq s)) = Inr (processes s ! nat (hd (jq s)))"
    by (simp add: at_in_range)
  with True show ?thesis
    by (simp add: bootstrap_def booted_def at_head arrival_def)
next
  case False
  then show ?thesis by (auto simp: bootstrap_def booted_def)
qed

subsection \<open>The bulk skip returns its closed form\<close>



lemma length_staggered [simp]: "length (staggered quantum now i rs ps) = length ps"
  by (induction rs arbitrary: i ps) simp_all

lemma length_lowered [simp]: "length (lowered d rs rem) = length rem"
  by (induction rs arbitrary: rem) simp_all


lemma fold_pushed_nonempty [simp]: "xs \<noteq> [] \<Longrightarrow> fold (pushed max_seq_len) rs xs \<noteq> []"
  by (induction rs arbitrary: xs) simp_all

lemma funpow_fold_pushed_nonempty [simp]:
  "xs \<noteq> [] \<Longrightarrow> ((fold (pushed max_seq_len) rs) ^^ c) xs \<noteq> []"
  by (induction c) simp_all








subsection \<open>What the closed forms do to the queues and to the other fields\<close>

lemma preempted_fields [simp]:
  "processes (preempted quantum max_seq_len s) = processes (ran_quantum quantum max_seq_len s)"
  "remaining_bursts (preempted quantum max_seq_len s)
     = remaining_bursts (ran_quantum quantum max_seq_len s)"
  "curr_time (preempted quantum max_seq_len s) = curr_time s + quantum"
  "seq (preempted quantum max_seq_len s) = pushed max_seq_len (hd (rq s)) (seq s)"
  "bootstraps (preempted quantum max_seq_len s) = bootstraps s"
  by (simp_all add: preempted_def Let_def)

lemma completed_fields [simp]:
  "processes (completed max_seq_len s) = processes (ran_out max_seq_len s)"
  "remaining_bursts (completed max_seq_len s) = remaining_bursts (ran_out max_seq_len s)"
  "curr_time (completed max_seq_len s) = curr_time s + remaining s (hd (rq s))"
  "seq (completed max_seq_len s) = pushed max_seq_len (hd (rq s)) (seq s)"
  "bootstraps (completed max_seq_len s) = bootstraps s"
  by (simp_all add: completed_def Let_def admitted_def)

lemma admitted_fields [simp]:
  "processes (admitted s) = processes s"
  "remaining_bursts (admitted s) = remaining_bursts s"
  "curr_time (admitted s) = curr_time s"
  "seq (admitted s) = seq s"
  "bootstraps (admitted s) = bootstraps s"
  "rq (admitted s) = rq s @ [hd (jq s)]"
  "jq (admitted s) = tl (jq s)"
  by (simp_all add: admitted_def)

lemma bulked_fields [simp]:
  "rq (bulked quantum max_seq_len k s) = rq s"
  "jq (bulked quantum max_seq_len k s) = jq s"
  "bootstraps (bulked quantum max_seq_len k s) = bootstraps s"
  "curr_time (bulked quantum max_seq_len k s)
     = curr_time s + int (length (rq s)) * quantum * k"
  "length (processes (bulked quantum max_seq_len k s)) = length (processes s)"
  "length (remaining_bursts (bulked quantum max_seq_len k s)) = length (remaining_bursts s)"
  by (simp_all add: bulked_def)

lemma preempted_queues:
  assumes "rq s \<noteq> []"
  shows "\<exists>early pending. jq s = early @ pending \<and>
           rq (preempted quantum max_seq_len s) @ jq (preempted quantum max_seq_len s)
             = tl (rq s) @ early @ [hd (rq s)] @ pending \<and>
           rq (preempted quantum max_seq_len s) \<noteq> [] \<and>
           length (jq (preempted quantum max_seq_len s)) \<le> length (jq s)"
proof -
  let ?P = "\<lambda>j. arrival s j < curr_time s + quantum"
  define early where "early = takeWhile ?P (jq s)"
  define pending where "pending = dropWhile ?P (jq s)"
  have split: "jq s = early @ pending" by (simp add: early_def pending_def)
  have closed: "preempted quantum max_seq_len s =
     (if pending \<noteq> [] \<and> arrival s (hd pending) = curr_time s + quantum
      then (ran_quantum quantum max_seq_len s)
             \<lparr>rq := tl (rq s) @ early @ [hd (rq s), hd pending], jq := tl pending\<rparr>
      else (ran_quantum quantum max_seq_len s)
             \<lparr>rq := tl (rq s) @ early @ [hd (rq s)], jq := pending\<rparr>)"
    by (simp add: preempted_def Let_def early_def pending_def)
  show ?thesis
    apply (rule exI [of _ early], rule exI [of _ pending])
    apply (simp add: closed split)
    apply arith
    done
qed

lemma preempted_set:
  assumes "rq s \<noteq> []"
  shows "set (rq (preempted quantum max_seq_len s)) \<union> set (jq (preempted quantum max_seq_len s))
         = set (rq s) \<union> set (jq s)"
proof -
  from preempted_queues [OF assms, of quantum max_seq_len] obtain early pending where
    *: "jq s = early @ pending"
       "rq (preempted quantum max_seq_len s) @ jq (preempted quantum max_seq_len s)
          = tl (rq s) @ early @ [hd (rq s)] @ pending"
    by blast
  have "set (rq (preempted quantum max_seq_len s) @ jq (preempted quantum max_seq_len s))
        = set (tl (rq s) @ early @ [hd (rq s)] @ pending)"
    using *(2) by simp
  also have "\<dots> = set (hd (rq s) # tl (rq s)) \<union> set (early @ pending)" by auto
  also have "\<dots> = set (rq s) \<union> set (jq s)" using assms *(1) by simp
  finally show ?thesis by simp
qed

lemma preempted_distinct:
  assumes "rq s \<noteq> []" "distinct (rq s @ jq s)"
  shows "distinct (rq (preempted quantum max_seq_len s) @ jq (preempted quantum max_seq_len s))"
proof -
  from preempted_queues [OF assms(1), of quantum max_seq_len] obtain early pending where
    *: "jq s = early @ pending"
       "rq (preempted quantum max_seq_len s) @ jq (preempted quantum max_seq_len s)
          = tl (rq s) @ early @ [hd (rq s)] @ pending"
    by blast
  have "distinct ((hd (rq s) # tl (rq s)) @ early @ pending)"
    using assms *(1) by simp
  then have "distinct (tl (rq s) @ early @ [hd (rq s)] @ pending)" by auto
  then show ?thesis using *(2) by simp
qed

lemma completed_queues:
  assumes "rq s \<noteq> []" "jq s \<noteq> []"
  shows "rq (completed max_seq_len s) @ jq (completed max_seq_len s) = tl (rq s) @ jq s"
    and "length (jq (completed max_seq_len s)) \<le> length (jq s)"
  using assms by (simp_all add: completed_def Let_def)

lemma completed_set:
  assumes "rq s \<noteq> []" "jq s \<noteq> []"
  shows "set (rq (completed max_seq_len s)) \<union> set (jq (completed max_seq_len s))
         = set (tl (rq s)) \<union> set (jq s)"
proof -
  have "set (rq (completed max_seq_len s) @ jq (completed max_seq_len s))
        = set (tl (rq s) @ jq s)"
    using completed_queues(1) [OF assms] by simp
  then show ?thesis by simp
qed


subsection \<open>Validity is kept, and a valid state has no failing access\<close>

lemma set_tl_subset: "set (tl xs) \<subseteq> set xs"
  by (cases xs) auto

lemma in_set_tl: "x \<in> set (tl xs) \<Longrightarrow> x \<in> set xs"
  using set_tl_subset [of xs] by blast

lemma valid_step:
  assumes "valid s"
    and "length (remaining_bursts s') = length (remaining_bursts s)"
    and "length (processes s') = length (processes s)"
    and "set (rq s') \<union> set (jq s') \<subseteq> set (rq s) \<union> set (jq s)"
    and "seq s' \<noteq> []"
  shows "valid s'"
  using assms unfolding valid_def by (simp add: subset_iff) blast

lemma valid_seq: "valid s \<Longrightarrow> rq s \<noteq> [] \<Longrightarrow> seq s \<noteq> []"
  by (simp add: valid_def)

lemma valid_ran_quantum:
  "valid s \<Longrightarrow> rq s \<noteq> [] \<Longrightarrow> valid (ran_quantum quantum max_seq_len s)"
  by (rule valid_step [of s]) (simp_all add: valid_seq)

lemma valid_ran_out:
  assumes "valid s" "rq s \<noteq> []"
  shows "valid (ran_out max_seq_len s)"
proof (rule valid_step [OF assms(1)])
  show "set (rq (ran_out max_seq_len s)) \<union> set (jq (ran_out max_seq_len s))
        \<subseteq> set (rq s) \<union> set (jq s)"
    using assms(2) by (auto dest: in_set_tl)
qed (simp_all add: valid_seq assms)

lemma valid_admitted:
  assumes "valid s" "rq s \<noteq> []" "jq s \<noteq> []"
  shows "valid (admitted s)"
proof (rule valid_step [OF assms(1)])
  show "set (rq (admitted s)) \<union> set (jq (admitted s)) \<subseteq> set (rq s) \<union> set (jq s)"
    using assms(3) by (auto dest: in_set_tl)
qed (simp_all add: valid_seq assms)

lemma valid_preempted:
  assumes "valid s" "rq s \<noteq> []"
  shows "valid (preempted quantum max_seq_len s)"
  by (rule valid_step [OF assms(1)]) (simp_all add: preempted_set assms valid_seq)

lemma valid_completed:
  assumes "valid s" "rq s \<noteq> []" "jq s \<noteq> []"
  shows "valid (completed max_seq_len s)"
proof (rule valid_step [OF assms(1)])
  show "set (rq (completed max_seq_len s)) \<union> set (jq (completed max_seq_len s))
        \<subseteq> set (rq s) \<union> set (jq s)"
    using assms(2) by (auto simp: completed_set assms dest: in_set_tl)
qed (simp_all add: valid_seq assms)


lemma booted_ready: "rq s \<noteq> [] \<or> jq s \<noteq> [] \<Longrightarrow> rq (booted max_seq_len s) \<noteq> []"
  by (auto simp: booted_def)

lemma valid_booted:
  assumes "valid s"
  shows "valid (booted max_seq_len s)"
proof (cases "rq s = [] \<and> jq s \<noteq> []")
  case True
  then have "booted max_seq_len s =
      s\<lparr>rq := [hd (jq s)], jq := tl (jq s), curr_time := arrival s (hd (jq s)),
        seq := seq s @
          [if int (length (seq s)) < max_seq_len \<and> arrival s (hd (jq s)) = 0
           then hd (jq s) else - 1],
        bootstraps := Suc (bootstraps s)\<rparr>"
    by (simp add: booted_def)
  moreover have "set [hd (jq s)] \<union> set (tl (jq s)) \<subseteq> set (rq s) \<union> set (jq s)"
    using True by (auto dest: in_set_tl)
  ultimately show ?thesis
    by (intro valid_step [OF assms]) simp_all
next
  case False
  then show ?thesis using assms by (auto simp: booted_def)
qed



lemma bulked_pending_queues [simp]:
  "rq (bulked_pending quantum max_seq_len s) = rq s"
  "jq (bulked_pending quantum max_seq_len s) = jq s"
  by (simp_all add: bulked_pending_def)

lemma bulked_idle_queues [simp]:
  "rq (bulked_idle quantum max_seq_len s) = rq s"
  "jq (bulked_idle quantum max_seq_len s) = jq s"
  by (simp_all add: bulked_idle_def)



lemma valid_stepped_pending:
  "valid s \<Longrightarrow> rq s \<noteq> [] \<Longrightarrow> jq s \<noteq> [] \<Longrightarrow> valid (stepped_pending quantum max_seq_len s)"
  by (simp add: stepped_pending_def valid_preempted valid_completed)

lemma valid_stepped_idle:
  assumes "valid s" "rq s \<noteq> []"
  shows "valid (stepped_idle quantum max_seq_len s)"
proof (cases "quantum < remaining s (hd (rq s))")
  case True
  have "valid ((ran_quantum quantum max_seq_len s)\<lparr>rq := tl (rq s) @ [hd (rq s)]\<rparr>)"
  proof (rule valid_step [OF assms(1)])
    show "set (rq ((ran_quantum quantum max_seq_len s)\<lparr>rq := tl (rq s) @ [hd (rq s)]\<rparr>))
          \<union> set (jq ((ran_quantum quantum max_seq_len s)\<lparr>rq := tl (rq s) @ [hd (rq s)]\<rparr>))
          \<subseteq> set (rq s) \<union> set (jq s)"
      using assms(2) by (auto dest: in_set_tl)
  qed (simp_all add: valid_seq assms)
  with True show ?thesis by (simp add: stepped_idle_def)
next
  case False
  then show ?thesis by (simp add: stepped_idle_def valid_ran_out assms)
qed


lemma valid_branched_naive:
  assumes "valid s" "rq s \<noteq> []"
  shows "valid (flow_state (branched_naive quantum max_seq_len s))"
  using assms
  by (simp add: branched_naive_def valid_admitted valid_stepped_pending valid_ran_out
      valid_stepped_idle)


lemma valid_iterated_naive:
  "valid s \<Longrightarrow> valid (flow_state (iterated_naive quantum max_seq_len s))"
  by (simp add: iterated_naive_def valid_branched_naive valid_booted booted_ready)


lemma branch_naive_closed:
  assumes "valid s" "rq s \<noteq> []"
  shows "(if jq s \<noteq> [] then pending_branch_naive quantum max_seq_len s
          else idle_branch_naive quantum max_seq_len s)
         = Inr (branched_naive quantum max_seq_len s)"
proof (cases "jq s = []")
  case True
  from valid_head [OF assms(1,2)]
  have r0: "at (remaining_bursts s) (hd (rq s)) = Inr (remaining s (hd (rq s)))"
    by (simp add: at_in_range remaining_def)
  show ?thesis
    using True
    by (simp add: idle_branch_naive_def branched_naive_def at_head assms(2) r0
        run_to_completion_closed [OF assms(1,2)] step_idle_closed assms(1))
next
  case False
  from valid_pending_head [OF assms(1) False]
  have j0: "at (processes s) (hd (jq s)) = Inr (processes s ! nat (hd (jq s)))"
    by (simp add: at_in_range)
  show ?thesis
    using False
    by (simp add: pending_branch_naive_def branched_naive_def at_head j0 arrival_def
        admitted_def step_pending_closed assms(1,2))
qed


lemma iteration_naive_closed:
  assumes "valid s"
  shows "iteration_naive quantum max_seq_len s = Inr (iterated_naive quantum max_seq_len s)"
proof (cases "rq s = [] \<and> jq s = []")
  case True
  then show ?thesis by (simp add: iteration_naive_def iterated_naive_def)
next
  case False
  then have ready: "rq (booted max_seq_len s) \<noteq> []" by (simp add: booted_ready)
  from branch_naive_closed [OF valid_booted [OF assms(1)] ready, of quantum max_seq_len] False ready
  show ?thesis
    by (auto simp: iteration_naive_def iterated_naive_def bootstrap_closed [OF assms(1)]
        split: if_splits)
qed

subsection \<open>Remaining bursts after a step\<close>



lemma remaining_ran_quantum:
  assumes "valid s" "rq s \<noteq> []" "0 \<le> r"
  shows "remaining (ran_quantum quantum max_seq_len s) r
         = (if r = hd (rq s) then remaining s r - quantum else remaining s r)"
proof -
  from valid_head [OF assms(1,2)]
  have h: "0 \<le> hd (rq s)" "nat (hd (rq s)) < length (remaining_bursts s)"
    by (simp_all add: nat_less_iff)
  have "nat r = nat (hd (rq s)) \<longleftrightarrow> r = hd (rq s)" using h(1) assms(3) by auto
  with h(2) show ?thesis
    by (auto simp: remaining_def ran_quantum_def nth_list_update)
qed

lemma remaining_ran_out:
  assumes "valid s" "rq s \<noteq> []" "0 \<le> r"
  shows "remaining (ran_out max_seq_len s) r = (if r = hd (rq s) then 0 else remaining s r)"
proof -
  from valid_head [OF assms(1,2)]
  have h: "0 \<le> hd (rq s)" "nat (hd (rq s)) < length (remaining_bursts s)"
    by (simp_all add: nat_less_iff)
  have "nat r = nat (hd (rq s)) \<longleftrightarrow> r = hd (rq s)" using h(1) assms(3) by auto
  with h(2) show ?thesis
    by (auto simp: remaining_def ran_out_def nth_list_update)
qed



subsection \<open>Arrival times never change\<close>

lemma arrival_staggered [simp]:
  "arrival_time (staggered quantum now i rs ps ! k) = arrival_time (ps ! k)"
  by (induction rs arbitrary: i ps) simp_all

lemma arrival_bulked [simp]: "arrival (bulked quantum max_seq_len k s) = arrival s"
  by (rule ext) (simp add: arrival_def bulked_def)

lemma arrival_bulked_pending [simp]: "arrival (bulked_pending quantum max_seq_len s) = arrival s"
  by (simp add: bulked_pending_def)

lemma arrival_bulked_idle [simp]: "arrival (bulked_idle quantum max_seq_len s) = arrival s"
  by (simp add: bulked_idle_def)

lemma arrival_admitted [simp]: "arrival (admitted s) = arrival s"
  by (rule ext) (simp add: arrival_def)

lemma arrival_preempted [simp]: "arrival (preempted quantum max_seq_len s) = arrival s"
  by (rule ext) (simp add: arrival_def ran_quantum_def)

lemma arrival_completed [simp]: "arrival (completed max_seq_len s) = arrival s"
  by (rule ext) (simp add: arrival_def ran_out_def)

lemma arrival_booted [simp]: "arrival (booted max_seq_len s) = arrival s"
  by (rule ext) (simp add: arrival_def booted_def)

lemma arrival_stepped_pending [simp]:
  "arrival (stepped_pending quantum max_seq_len s) = arrival s"
  by (simp add: stepped_pending_def)

lemma arrival_stepped_idle [simp]: "arrival (stepped_idle quantum max_seq_len s) = arrival s"
  by (rule ext) (simp add: stepped_idle_def arrival_def ran_quantum_def ran_out_def)

text \<open>Arrivals are not negative: a statement about indices, which the updates keep.\<close>

lemma arrivals_ok_set: "arrivals_ok s \<longleftrightarrow> (\<forall>p \<in> set (processes s). 0 \<le> arrival_time p)"
  by (simp add: arrivals_ok_def all_set_conv_all_nth)

lemma arrivals_ok_step:
  assumes "arrivals_ok s" "length (processes s') = length (processes s)" "arrival s' = arrival s"
  shows "arrivals_ok s'"
  unfolding arrivals_ok_def
proof (intro allI impI)
  fix i assume "i < length (processes s')"
  then have "i < length (processes s)" using assms(2) by simp
  then have "0 \<le> arrival s (int i)" using assms(1) by (simp add: arrivals_ok_def arrival_def)
  then show "0 \<le> arrival_time (processes s' ! i)"
    using assms(3) by (simp add: arrival_def fun_eq_iff) (metis nat_int)
qed

subsection \<open>The number of rounds of a bulk skip\<close>








subsection \<open>The invariant is kept\<close>

lemma inv_valid: "inv s \<Longrightarrow> valid s"
  by (simp add: inv_def)

lemma inv_positive: "inv s \<Longrightarrow> r \<in> set (rq s) \<union> set (jq s) \<Longrightarrow> 0 < remaining s r"
  by (simp add: inv_def remaining_def)

lemma inv_index: "inv s \<Longrightarrow> r \<in> set (rq s) \<union> set (jq s) \<Longrightarrow> 0 \<le> r"
  by (auto simp: inv_def valid_def)

lemma inv_head: "inv s \<Longrightarrow> rq s \<noteq> [] \<Longrightarrow> 0 < remaining s (hd (rq s))"
  by (rule inv_positive) simp_all

lemma invI:
  assumes "valid s" "distinct (rq s @ jq s)"
    and "\<And>r. r \<in> set (rq s) \<union> set (jq s) \<Longrightarrow> 0 < remaining s r"
    and "0 \<le> curr_time s" "arrivals_ok s"
  shows "inv s"
  using assms by (simp add: inv_def remaining_def)

lemma inv_admitted:
  assumes "inv s" "rq s \<noteq> []" "jq s \<noteq> []"
  shows "inv (admitted s)"
proof (rule invI)
  show "valid (admitted s)" by (rule valid_admitted [OF inv_valid [OF assms(1)] assms(2,3)])
  have "rq (admitted s) @ jq (admitted s) = rq s @ jq s" using assms(3) by simp
  then show "distinct (rq (admitted s) @ jq (admitted s))" using assms(1) by (simp add: inv_def)
  show "0 < remaining (admitted s) r" if "r \<in> set (rq (admitted s)) \<union> set (jq (admitted s))" for r
  proof -
    from that assms(3) have "r \<in> set (rq s) \<union> set (jq s)" by (auto dest: in_set_tl)
    from inv_positive [OF assms(1) this] show ?thesis by (simp add: remaining_def)
  qed
  show "0 \<le> curr_time (admitted s)" using assms(1) by (simp add: inv_def)
  show "arrivals_ok (admitted s)"
    by (rule arrivals_ok_step [of s]) (use assms(1) in \<open>simp_all add: inv_def\<close>)
qed

lemma booted_fields [simp]:
  "processes (booted max_seq_len s) = processes s"
  "remaining_bursts (booted max_seq_len s) = remaining_bursts s"
  by (simp_all add: booted_def)

lemma inv_booted:
  assumes "inv s"
  shows "inv (booted max_seq_len s)"
proof (cases "rq s = [] \<and> jq s \<noteq> []")
  case True
  then have b: "booted max_seq_len s =
      s\<lparr>rq := [hd (jq s)], jq := tl (jq s), curr_time := arrival s (hd (jq s)),
        seq := seq s @
          [if int (length (seq s)) < max_seq_len \<and> arrival s (hd (jq s)) = 0
           then hd (jq s) else - 1],
        bootstraps := Suc (bootstraps s)\<rparr>"
    by (simp add: booted_def)
  show ?thesis
  proof (rule invI)
    show "valid (booted max_seq_len s)" by (rule valid_booted [OF inv_valid [OF assms]])
    have "rq (booted max_seq_len s) @ jq (booted max_seq_len s) = rq s @ jq s"
      using True by (simp add: b)
    then show "distinct (rq (booted max_seq_len s) @ jq (booted max_seq_len s))"
      using assms by (simp add: inv_def)
    show "0 < remaining (booted max_seq_len s) r"
      if "r \<in> set (rq (booted max_seq_len s)) \<union> set (jq (booted max_seq_len s))" for r
    proof -
      from that True have "r \<in> set (rq s) \<union> set (jq s)" by (auto simp: b dest: in_set_tl)
      from inv_positive [OF assms this] show ?thesis by (simp add: remaining_def b)
    qed
    from valid_pending_head [OF inv_valid [OF assms]] True
    have "nat (hd (jq s)) < length (processes s)" by (simp add: nat_less_iff)
    then have "0 \<le> arrival s (hd (jq s))"
      using assms by (simp add: inv_def arrivals_ok_def arrival_def)
    then show "0 \<le> curr_time (booted max_seq_len s)" by (simp add: b)
    show "arrivals_ok (booted max_seq_len s)"
      by (rule arrivals_ok_step [of s]) (use assms in \<open>simp_all add: inv_def\<close>)
  qed
next
  case False
  then show ?thesis using assms by (auto simp: booted_def)
qed

lemma inv_ran_out:
  assumes "inv s" "rq s \<noteq> []"
  shows "inv (ran_out max_seq_len s)"
proof (rule invI)
  note v = inv_valid [OF assms(1)]
  show "valid (ran_out max_seq_len s)" by (rule valid_ran_out [OF v assms(2)])
  have "rq s = hd (rq s) # tl (rq s)" using assms(2) by simp
  then have "distinct ((hd (rq s) # tl (rq s)) @ jq s)" using assms(1) by (simp add: inv_def)
  then have d: "distinct (hd (rq s) # tl (rq s) @ jq s)" by simp
  then show "distinct (rq (ran_out max_seq_len s) @ jq (ran_out max_seq_len s))" by simp
  show "0 < remaining (ran_out max_seq_len s) r"
    if "r \<in> set (rq (ran_out max_seq_len s)) \<union> set (jq (ran_out max_seq_len s))" for r
  proof -
    from that have r: "r \<in> set (tl (rq s)) \<union> set (jq s)" by simp
    then have "r \<noteq> hd (rq s)" using d by auto
    moreover from r have r': "r \<in> set (rq s) \<union> set (jq s)" by (auto dest: in_set_tl)
    ultimately show ?thesis
      using remaining_ran_out [OF v assms(2) inv_index [OF assms(1) r'], of max_seq_len]
        inv_positive [OF assms(1) r'] by simp
  qed
  show "0 \<le> curr_time (ran_out max_seq_len s)"
    using inv_head [OF assms] assms(1) by (simp add: inv_def)
  show "arrivals_ok (ran_out max_seq_len s)"
    by (rule arrivals_ok_step [of s]) (use assms(1) in \<open>simp_all add: inv_def\<close>)
qed

lemma inv_completed:
  assumes "inv s" "rq s \<noteq> []" "jq s \<noteq> []"
  shows "inv (completed max_seq_len s)"
proof (cases "rq (ran_out max_seq_len s) = []")
  case True
  note i = inv_ran_out [OF assms(1,2), of max_seq_len]
  show ?thesis
  proof (cases "arrival (ran_out max_seq_len s) (hd (jq (ran_out max_seq_len s)))
                \<le> curr_time (ran_out max_seq_len s)")
    case False
    then show ?thesis using i by (simp add: completed_def Let_def)
  next
    case le: True
    have "inv (admitted (ran_out max_seq_len s))"
    proof (rule invI)
      show "valid (admitted (ran_out max_seq_len s))"
        using valid_completed [OF inv_valid [OF assms(1)] assms(2,3), of max_seq_len] le
        by (simp add: completed_def Let_def)
      have "rq (admitted (ran_out max_seq_len s)) @ jq (admitted (ran_out max_seq_len s))
            = rq (ran_out max_seq_len s) @ jq (ran_out max_seq_len s)"
        using assms(3) by simp
      then show "distinct (rq (admitted (ran_out max_seq_len s)) @ jq (admitted (ran_out max_seq_len s)))"
        using i by (simp add: inv_def)
      show "0 < remaining (admitted (ran_out max_seq_len s)) r"
        if "r \<in> set (rq (admitted (ran_out max_seq_len s))) \<union> set (jq (admitted (ran_out max_seq_len s)))"
        for r
      proof -
        from that assms(3)
        have "r \<in> set (rq (ran_out max_seq_len s)) \<union> set (jq (ran_out max_seq_len s))"
          by (auto dest: in_set_tl)
        from inv_positive [OF i this] show ?thesis by (simp add: remaining_def)
      qed
      show "0 \<le> curr_time (admitted (ran_out max_seq_len s))" using i by (simp add: inv_def)
      show "arrivals_ok (admitted (ran_out max_seq_len s))"
        by (rule arrivals_ok_step [of "ran_out max_seq_len s"]) (use i in \<open>simp_all add: inv_def\<close>)
    qed
    with le show ?thesis by (simp add: completed_def Let_def)
  qed
next
  case False
  note i = inv_ran_out [OF assms(1,2), of max_seq_len]
  have "jq (ran_out max_seq_len s) \<noteq> []" using assms(3) by simp
  from inv_admitted [OF i False this] i show ?thesis by (simp add: completed_def Let_def)
qed

lemma inv_ran_quantum:
  assumes "inv s" "rq s \<noteq> []" "0 < quantum" "quantum < remaining s (hd (rq s))"
  shows "inv (ran_quantum quantum max_seq_len s)"
proof (rule invI)
  note v = inv_valid [OF assms(1)]
  show "valid (ran_quantum quantum max_seq_len s)" by (rule valid_ran_quantum [OF v assms(2)])
  show "distinct (rq (ran_quantum quantum max_seq_len s) @ jq (ran_quantum quantum max_seq_len s))"
    using assms(1) by (simp add: inv_def)
  show "0 < remaining (ran_quantum quantum max_seq_len s) r"
    if "r \<in> set (rq (ran_quantum quantum max_seq_len s)) \<union> set (jq (ran_quantum quantum max_seq_len s))"
    for r
  proof -
    from that have r: "r \<in> set (rq s) \<union> set (jq s)" by simp
    show ?thesis
      using remaining_ran_quantum [OF v assms(2) inv_index [OF assms(1) r], of quantum max_seq_len]
        inv_positive [OF assms(1) r] assms(4) by auto
  qed
  show "0 \<le> curr_time (ran_quantum quantum max_seq_len s)"
    using assms(1,3) by (simp add: inv_def)
  show "arrivals_ok (ran_quantum quantum max_seq_len s)"
    by (rule arrivals_ok_step [of s]) (use assms(1) in \<open>simp_all add: inv_def\<close>)
qed

text \<open>A change of the queues that keeps their members keeps the invariant.\<close>

lemma inv_queues:
  assumes "inv s" "distinct (ready @ pending)"
    and "set ready \<union> set pending \<subseteq> set (rq s) \<union> set (jq s)" and "rq s \<noteq> []"
  shows "inv (s\<lparr>rq := ready, jq := pending\<rparr>)"
proof (rule invI)
  show "valid (s\<lparr>rq := ready, jq := pending\<rparr>)"
    by (rule valid_step [OF inv_valid [OF assms(1)]])
      (use assms(3) valid_seq [OF inv_valid [OF assms(1)] assms(4)] in simp_all)
  show "distinct (rq (s\<lparr>rq := ready, jq := pending\<rparr>) @ jq (s\<lparr>rq := ready, jq := pending\<rparr>))"
    using assms(2) by simp
  show "0 < remaining (s\<lparr>rq := ready, jq := pending\<rparr>) r"
    if "r \<in> set (rq (s\<lparr>rq := ready, jq := pending\<rparr>)) \<union> set (jq (s\<lparr>rq := ready, jq := pending\<rparr>))"
    for r
  proof -
    from that assms(3) have "r \<in> set (rq s) \<union> set (jq s)" by auto
    from inv_positive [OF assms(1) this] show ?thesis by (simp add: remaining_def)
  qed
  show "0 \<le> curr_time (s\<lparr>rq := ready, jq := pending\<rparr>)" using assms(1) by (simp add: inv_def)
  show "arrivals_ok (s\<lparr>rq := ready, jq := pending\<rparr>)"
    by (rule arrivals_ok_step [of s]) (use assms(1) in \<open>simp_all add: inv_def arrival_def fun_eq_iff\<close>)
qed


lemma inv_preempted:
  assumes "inv s" "rq s \<noteq> []" "0 < quantum" "quantum < remaining s (hd (rq s))"
  shows "inv (preempted quantum max_seq_len s)"
proof -
  let ?s1 = "ran_quantum quantum max_seq_len s"
  let ?s2 = "preempted quantum max_seq_len s"
  have eq: "?s2 = ?s1\<lparr>rq := rq ?s2, jq := jq ?s2\<rparr>"
    by (simp add: preempted_def Let_def)
  have "inv (?s1\<lparr>rq := rq ?s2, jq := jq ?s2\<rparr>)"
  proof (rule inv_queues [OF inv_ran_quantum [OF assms]])
    show "distinct (rq ?s2 @ jq ?s2)"
      using preempted_distinct [OF assms(2)] assms(1) by (simp add: inv_def)
    show "set (rq ?s2) \<union> set (jq ?s2) \<subseteq> set (rq ?s1) \<union> set (jq ?s1)"
      using preempted_set [OF assms(2), of quantum max_seq_len] by simp
    show "rq ?s1 \<noteq> []" using assms(2) by simp
  qed
  then show ?thesis by (subst eq)
qed

lemma inv_stepped_pending:
  assumes "inv s" "rq s \<noteq> []" "jq s \<noteq> []" "0 < quantum"
  shows "inv (stepped_pending quantum max_seq_len s)"
  using inv_preempted [OF assms(1,2,4)] inv_completed [OF assms(1,2,3)]
  by (simp add: stepped_pending_def)

lemma inv_stepped_idle:
  assumes "inv s" "rq s \<noteq> []" "0 < quantum"
  shows "inv (stepped_idle quantum max_seq_len s)"
proof (cases "quantum < remaining s (hd (rq s))")
  case True
  let ?s1 = "ran_quantum quantum max_seq_len s"
  have "rq s = hd (rq s) # tl (rq s)" using assms(2) by simp
  then have d: "distinct ((hd (rq s) # tl (rq s)) @ jq s)"
    and m: "set (rq s) = set (hd (rq s) # tl (rq s))"
    using assms(1) by (simp_all add: inv_def)
  have "inv (?s1\<lparr>rq := tl (rq s) @ [hd (rq s)], jq := jq s\<rparr>)"
  proof (rule inv_queues [OF inv_ran_quantum [OF assms True]])
    show "distinct ((tl (rq s) @ [hd (rq s)]) @ jq s)" using d by auto
    show "set (tl (rq s) @ [hd (rq s)]) \<union> set (jq s) \<subseteq> set (rq ?s1) \<union> set (jq ?s1)"
      using m by auto
    show "rq ?s1 \<noteq> []" using assms(2) by simp
  qed
  moreover have "?s1\<lparr>rq := tl (rq s) @ [hd (rq s)], jq := jq s\<rparr>
                 = ?s1\<lparr>rq := tl (rq s) @ [hd (rq s)]\<rparr>"
    by (simp add: ran_quantum_def)
  ultimately show ?thesis using True by (simp add: stepped_idle_def)
next
  case False
  then show ?thesis using inv_ran_out [OF assms(1,2)] by (simp add: stepped_idle_def)
qed








lemma inv_branched_naive:
  assumes "inv s" "rq s \<noteq> []" "0 < quantum"
  shows "inv (flow_state (branched_naive quantum max_seq_len s))"
  using assms
  by (simp add: branched_naive_def inv_admitted inv_stepped_pending inv_ran_out inv_stepped_idle)


lemma inv_iterated_naive:
  "inv s \<Longrightarrow> 0 < quantum \<Longrightarrow> inv (flow_state (iterated_naive quantum max_seq_len s))"
  by (simp add: iterated_naive_def inv_branched_naive inv_booted booted_ready)

subsection \<open>Every iteration lowers the effort\<close>

lemma sum_nat_update:
  assumes "i < length rem"
  shows "sum_list (map nat (rem[i := v])) + nat (rem ! i) = sum_list (map nat rem) + nat v"
proof -
  have "sum_list (map nat (rem[i := v])) = sum_list ((map nat rem)[i := nat v])"
    by (simp add: map_update)
  also have "\<dots> = sum_list (map nat rem) + nat v - map nat rem ! i"
    using assms by (simp add: sum_list_update)
  finally have "sum_list (map nat (rem[i := v])) = sum_list (map nat rem) + nat v - nat (rem ! i)"
    using assms by simp
  moreover have "nat (rem ! i) \<le> sum_list (map nat rem)"
    using elem_le_sum_list [of i "map nat rem"] assms by simp
  ultimately show ?thesis by simp
qed


lemma work_ran_quantum:
  assumes "valid s" "rq s \<noteq> []" "0 < quantum" "0 < remaining s (hd (rq s))"
  shows "work (ran_quantum quantum max_seq_len s) < work s"
proof -
  from valid_head [OF assms(1,2)]
  have h: "nat (hd (rq s)) < length (remaining_bursts s)" by (simp add: nat_less_iff)
  from sum_nat_update [OF h, of "remaining s (hd (rq s)) - quantum"] assms(3,4)
  show ?thesis by (simp add: work_def ran_quantum_def remaining_def)
qed

lemma work_ran_out:
  assumes "valid s" "rq s \<noteq> []" "0 < remaining s (hd (rq s))"
  shows "work (ran_out max_seq_len s) < work s"
proof -
  from valid_head [OF assms(1,2)]
  have h: "nat (hd (rq s)) < length (remaining_bursts s)" by (simp add: nat_less_iff)
  from sum_nat_update [OF h, of 0] assms(3)
  show ?thesis by (simp add: work_def ran_out_def remaining_def)
qed


lemma effort_admitted: "jq s \<noteq> [] \<Longrightarrow> effort (admitted s) < effort s"
  by (cases "jq s") (simp_all add: effort_def work_def)

lemma effort_stepped_pending:
  assumes "inv s" "rq s \<noteq> []" "jq s \<noteq> []" "0 < quantum"
  shows "effort (stepped_pending quantum max_seq_len s) < effort s"
proof (cases "quantum < remaining s (hd (rq s))")
  case True
  have "work (preempted quantum max_seq_len s) = work (ran_quantum quantum max_seq_len s)"
    by (simp add: work_def)
  moreover have "length (jq (preempted quantum max_seq_len s)) \<le> length (jq s)"
    using preempted_queues [OF assms(2), of quantum max_seq_len] by blast
  ultimately show ?thesis
    using work_ran_quantum [OF inv_valid [OF assms(1)] assms(2,4) inv_head [OF assms(1,2)],
        of max_seq_len] True
    by (simp add: stepped_pending_def effort_def)
next
  case False
  have "work (completed max_seq_len s) = work (ran_out max_seq_len s)"
    by (simp add: work_def)
  then show ?thesis
    using work_ran_out [OF inv_valid [OF assms(1)] assms(2) inv_head [OF assms(1,2)],
        of max_seq_len] completed_queues(2) [OF assms(2,3), of max_seq_len] False
    by (simp add: stepped_pending_def effort_def)
qed

lemma effort_stepped_idle:
  assumes "inv s" "rq s \<noteq> []" "0 < quantum"
  shows "effort (stepped_idle quantum max_seq_len s) < effort s"
proof (cases "quantum < remaining s (hd (rq s))")
  case True
  have "work ((ran_quantum quantum max_seq_len s)\<lparr>rq := tl (rq s) @ [hd (rq s)]\<rparr>)
        = work (ran_quantum quantum max_seq_len s)"
    by (simp add: work_def)
  then show ?thesis
    using work_ran_quantum [OF inv_valid [OF assms(1)] assms(2,3) inv_head [OF assms(1,2)],
        of max_seq_len] True
    by (simp add: stepped_idle_def effort_def)
next
  case False
  then show ?thesis
    using work_ran_out [OF inv_valid [OF assms(1)] assms(2) inv_head [OF assms(1,2)],
        of max_seq_len]
    by (simp add: stepped_idle_def effort_def)
qed





lemma effort_branched_naive:
  assumes "inv s" "rq s \<noteq> []" "0 < quantum" "branched_naive quantum max_seq_len s = Continue s'"
  shows "effort s' < effort s"
proof (cases "jq s = []")
  case True
  with assms(4) have s': "s' = stepped_idle quantum max_seq_len s"
    by (simp add: branched_naive_def split: if_splits)
  show ?thesis unfolding s' by (rule effort_stepped_idle [OF assms(1,2,3)])
next
  case False
  show ?thesis
  proof (cases "arrival s (hd (jq s)) = curr_time s")
    case True
    with False assms(4) have "s' = admitted s" by (simp add: branched_naive_def)
    then show ?thesis using effort_admitted [OF False] by simp
  next
    case ne: False
    with False assms(4) have s': "s' = stepped_pending quantum max_seq_len s"
      by (simp add: branched_naive_def)
    show ?thesis unfolding s' by (rule effort_stepped_pending [OF assms(1,2) False assms(3)])
  qed
qed

lemma effort_booted: "effort (booted max_seq_len s) \<le> effort s"
  by (cases "jq s") (simp_all add: booted_def effort_def work_def)


lemma effort_iterated_naive:
  assumes "inv s" "0 < quantum" "iterated_naive quantum max_seq_len s = Continue s'"
  shows "effort s' < effort s"
proof -
  from assms(3) have ne: "rq s \<noteq> [] \<or> jq s \<noteq> []"
    and b: "branched_naive quantum max_seq_len (booted max_seq_len s) = Continue s'"
    by (auto simp: iterated_naive_def split: if_splits)
  from effort_branched_naive [OF inv_booted [OF assms(1)] booted_ready [OF ne] assms(2) b]
    effort_booted [of max_seq_len s]
  show ?thesis by simp
qed

subsection \<open>The loop on a valid state, and its total correctness\<close>


lemma loop_naive_step:
  assumes "valid s"
  shows "loop_naive quantum max_seq_len s =
    (case iterated_naive quantum max_seq_len s of
       Continue s' \<Rightarrow> loop_naive quantum max_seq_len s' | Break s' \<Rightarrow> Some (Inr s'))"
  by (subst loop_naive.simps) (simp add: iteration_naive_closed [OF assms] split: flow.split)


lemma loop_naive_total:
  assumes "0 < quantum" "inv s" "J s"
    and keep: "\<And>s s'. inv s \<Longrightarrow> J s \<Longrightarrow> iterated_naive quantum max_seq_len s = Continue s' \<Longrightarrow> J s'"
    and fin: "\<And>s s'. inv s \<Longrightarrow> J s \<Longrightarrow> iterated_naive quantum max_seq_len s = Break s' \<Longrightarrow> P s'"
  shows "\<exists>s'. loop_naive quantum max_seq_len s = Some (Inr s') \<and> P s'"
  using assms(2,3)
proof (induction "effort s" arbitrary: s rule: less_induct)
  case less
  note st = loop_naive_step [OF inv_valid [OF less.prems(1)], of quantum max_seq_len]
  show ?case
  proof (cases "iterated_naive quantum max_seq_len s")
    case (Continue s')
    have "inv s'"
      using inv_iterated_naive [OF less.prems(1) assms(1), of max_seq_len] Continue by simp
    moreover have "J s'" by (rule keep [OF less.prems Continue])
    moreover have "effort s' < effort s"
      by (rule effort_iterated_naive [OF less.prems(1) assms(1) Continue])
    ultimately have "\<exists>s''. loop_naive quantum max_seq_len s' = Some (Inr s'') \<and> P s''"
      by (intro less.hyps)
    then show ?thesis by (simp add: st Continue)
  next
    case (Break s')
    from fin [OF less.prems Break] show ?thesis by (simp add: st Break)
  qed
qed

subsection \<open>The first state of a well-formed input\<close>




subsection \<open>Reachable states\<close>







subsection \<open>Termination\<close>




subsection \<open>Accesses in range\<close>





subsection \<open>The input fields of the processes\<close>
















subsection \<open>The tie-break of the preemption step\<close>

lemma drain_result:
  "drain now ps ready js = Inr (a, b) \<Longrightarrow>
   a = ready @ takeWhile (\<lambda>j. arrival_time (ps ! nat j) < now) js \<and>
   b = dropWhile (\<lambda>j. arrival_time (ps ! nat j) < now) js"
proof (induction js arbitrary: ready)
  case Nil
  then show ?case by simp
next
  case (Cons j js)
  from Cons.prems obtain p where p: "at ps j = Inr p"
    and r: "(if arrival_time p < now then drain now ps (ready @ [j]) js
             else Inr (ready, j # js)) = Inr (a, b)"
    by (auto simp: ebind_eq_Inr)
  from p have pj: "p = ps ! nat j" by (simp add: at_eq_Inr)
  show ?case
  proof (cases "arrival_time p < now")
    case True
    with r have "drain now ps (ready @ [j]) js = Inr (a, b)" by simp
    from Cons.IH [OF this] True pj show ?thesis by simp
  next
    case False
    with r pj show ?thesis by auto
  qed
qed

lemma run_quantum_result:
  assumes "run_quantum quantum max_seq_len r0 b s = Inr s1"
  shows "rq s1 = rq s" "jq s1 = jq s" "curr_time s1 = curr_time s + quantum"
    "processes s1 = start_upd (nat r0) (curr_time s) (processes s)"
proof -
  from assms obtain ps s2 rem where
    ps: "set_start r0 (curr_time s) (processes s) = Inr ps"
    and s2: "push_seq max_seq_len r0 (s\<lparr>processes := ps, curr_time := curr_time s + quantum\<rparr>)
             = Inr s2"
    and s1: "s1 = s2\<lparr>remaining_bursts := rem\<rparr>"
    by (auto simp: run_quantum_def ebind_eq_Inr)
  from ps have ps': "ps = start_upd (nat r0) (curr_time s) (processes s)"
    by (auto simp: set_start_def ebind_eq_Inr at_eq_Inr start_upd_def split: if_splits)
  from s2 have f: "rq s2 = rq s" "jq s2 = jq s" "curr_time s2 = curr_time s + quantum"
    "processes s2 = ps"
    by (auto simp: push_seq_def split: if_splits)
  show "rq s1 = rq s" "jq s1 = jq s" "curr_time s1 = curr_time s + quantum"
    "processes s1 = start_upd (nat r0) (curr_time s) (processes s)"
    using f s1 ps' by simp_all
qed

text \<open>
  C6. When the preemption step with pending processes succeeds on a ready queue \<open>r0 # rest\<close>,
  the clock has advanced by one quantum, and the pending queue splits into the processes
  that arrived strictly before the new time and the others: the early ones join the ready
  queue before the preempted head \<open>r0\<close>; if the first of the others arrives exactly at the
  new time, it alone joins behind \<open>r0\<close>.
\<close>

theorem preempt_tie_break:
  assumes "preempt_pending quantum max_seq_len r0 b s = Inr s'" and "rq s = r0 # rest"
  shows "curr_time s' = curr_time s + quantum \<and>
    (\<exists>early late. jq s = early @ late \<and>
       (\<forall>j \<in> set early. arrival s j < curr_time s') \<and>
       (late \<noteq> [] \<longrightarrow> curr_time s' \<le> arrival s (hd late)) \<and>
       (if late \<noteq> [] \<and> arrival s (hd late) = curr_time s'
        then rq s' = rest @ early @ [r0, hd late] \<and> jq s' = tl late
        else rq s' = rest @ early @ [r0] \<and> jq s' = late))"
proof -
  let ?now = "curr_time s + quantum"
  from assms(1) obtain s1 ready pending ready' where
    s1: "run_quantum quantum max_seq_len r0 b s = Inr s1"
    and dr: "drain (curr_time s1) (processes s1) (rq s1) (jq s1) = Inr (ready, pending)"
    and rq': "requeue ready = Inr ready'"
    and fin: "(case pending of
        [] \<Rightarrow> Inr (s1\<lparr>rq := ready', jq := []\<rparr>)
      | j # js \<Rightarrow>
          ebind (at (processes s1) j) (\<lambda>pj.
            if arrival_time pj = curr_time s1
            then Inr (s1\<lparr>rq := ready' @ [j], jq := js\<rparr>)
            else Inr (s1\<lparr>rq := ready', jq := j # js\<rparr>))) = Inr s'"
    by (auto simp: preempt_pending_def ebind_eq_Inr)
  note f = run_quantum_result [OF s1]
  have arr: "arrival_time (processes s1 ! nat j) = arrival s j" for j
    by (simp add: f(4) arrival_def)
  let ?P = "\<lambda>j. arrival s j < ?now"
  from drain_result [OF dr]
  have ready: "ready = (r0 # rest) @ takeWhile ?P (jq s)"
    and pending: "pending = dropWhile ?P (jq s)"
    by (simp_all add: f arr assms(2) arrival_def)
  from rq' ready have ready': "ready' = rest @ takeWhile ?P (jq s) @ [r0]"
    by (simp add: requeue_def at_def)
  have split: "jq s = takeWhile ?P (jq s) @ pending" by (simp add: pending)
  have early: "\<forall>j \<in> set (takeWhile ?P (jq s)). arrival s j < ?now"
    by (auto dest: set_takeWhileD)
  have late: "pending \<noteq> [] \<longrightarrow> ?now \<le> arrival s (hd pending)"
  proof
    assume "pending \<noteq> []"
    then have "\<not> ?P (hd pending)" unfolding pending by (rule hd_dropWhile)
    then show "?now \<le> arrival s (hd pending)" by simp
  qed
  have body: "if pending \<noteq> [] \<and> arrival s (hd pending) = ?now
        then rq s' = rest @ takeWhile ?P (jq s) @ [r0, hd pending] \<and> jq s' = tl pending
        else rq s' = rest @ takeWhile ?P (jq s) @ [r0] \<and> jq s' = pending"
  proof (cases pending)
    case Nil
    with fin ready' show ?thesis by auto
  next
    case (Cons j js)
    with fin have "ebind (at (processes s1) j) (\<lambda>pj.
        if arrival_time pj = curr_time s1
        then Inr (s1\<lparr>rq := ready' @ [j], jq := js\<rparr>)
        else Inr (s1\<lparr>rq := ready', jq := j # js\<rparr>)) = Inr s'"
      by simp
    then obtain pj where pj: "at (processes s1) j = Inr pj"
      and r: "(if arrival_time pj = curr_time s1
               then Inr (s1\<lparr>rq := ready' @ [j], jq := js\<rparr>)
               else Inr (s1\<lparr>rq := ready', jq := j # js\<rparr>)) = (Inr s' :: error + state)"
      unfolding ebind_eq_Inr by blast
    from pj have "arrival_time pj = arrival s j" by (simp add: at_eq_Inr arr)
    with r Cons ready' f(3) show ?thesis by (auto split: if_splits)
  qed
  have ct: "curr_time s' = ?now"
    using fin f(3) by (auto simp: ebind_eq_Inr split: list.splits if_splits)
  have "\<exists>early late. jq s = early @ late \<and>
       (\<forall>j \<in> set early. arrival s j < ?now) \<and>
       (late \<noteq> [] \<longrightarrow> ?now \<le> arrival s (hd late)) \<and>
       (if late \<noteq> [] \<and> arrival s (hd late) = ?now
        then rq s' = rest @ early @ [r0, hd late] \<and> jq s' = tl late
        else rq s' = rest @ early @ [r0] \<and> jq s' = late)"
    by (rule exI [of _ "takeWhile ?P (jq s)"], rule exI [of _ pending])
      (rule conjI [OF split conjI [OF early conjI [OF late body]]])
  then show ?thesis unfolding ct by (rule conjI [OF refl])
qed

theorem preempt_tie_break_witness:
  "preempt_pending 2 10 0 5 tie_state = Inr tie_result \<and> rq tie_state = 0 # [] \<and>
   curr_time tie_result = curr_time tie_state + 2 \<and>
   (\<exists>early late. jq tie_state = early @ late \<and>
      (\<forall>j \<in> set early. arrival tie_state j < curr_time tie_result) \<and>
      (late \<noteq> [] \<longrightarrow> curr_time tie_result \<le> arrival tie_state (hd late)) \<and>
      (if late \<noteq> [] \<and> arrival tie_state (hd late) = curr_time tie_result
       then rq tie_result = [] @ early @ [0, hd late] \<and> jq tie_result = tl late
       else rq tie_result = [] @ early @ [0] \<and> jq tie_result = late))"
proof -
  have run: "preempt_pending 2 10 0 5 tie_state = Inr tie_result"
    by (simp add: tie_state_def tie_result_def step_defs)
  have ready: "rq tie_state = 0 # []" by (simp add: tie_state_def)
  show ?thesis by (rule conjI [OF run conjI [OF ready preempt_tie_break [OF run ready]]])
qed

subsection \<open>The length of the trace\<close>









lemma bootstraps_bulked_pending [simp]:
  "bootstraps (bulked_pending quantum max_seq_len s) = bootstraps s"
  by (simp add: bulked_pending_def)

lemma bootstraps_bulked_idle [simp]:
  "bootstraps (bulked_idle quantum max_seq_len s) = bootstraps s"
  by (simp add: bulked_idle_def)

lemma bootstraps_stepped_pending [simp]:
  "bootstraps (stepped_pending quantum max_seq_len s) = bootstraps s"
  by (simp add: stepped_pending_def)

lemma bootstraps_stepped_idle [simp]:
  "bootstraps (stepped_idle quantum max_seq_len s) = bootstraps s"
  by (simp add: stepped_idle_def)

lemma bootstraps_branched [simp]:
  "bootstraps (flow_state (branched quantum max_seq_len s)) = bootstraps s"
  by (simp add: branched_def)






subsection \<open>The cap does not influence the schedule\<close>

lemma schedule_eq:
  "schedule s = schedule t \<longleftrightarrow>
   curr_time s = curr_time t \<and> rq s = rq t \<and> jq s = jq t \<and>
   remaining_bursts s = remaining_bursts t \<and> processes s = processes t"
  by (simp add: schedule_def)



















lemma effort_schedule: "schedule s = schedule t \<Longrightarrow> effort s = effort t"
  by (simp add: schedule_eq effort_def work_def)


lemma pushed_zero [simp]: "pushed 0 x xs = xs"
  by (simp add: pushed_def)

lemma fold_pushed_zero [simp]: "fold (pushed 0) rs xs = xs"
  by (induction rs) simp_all




subsection \<open>Start times are written once\<close>


lemma start_time_finish_upd [simp]:
  "start_time (finish_upd i t ps ! k) = start_time (ps ! k)"
  using nth_update_field [of start_time "\<lambda>p. p\<lparr>finish_time := t\<rparr>" ps i k]
  by (simp add: finish_upd_def)

lemma keeps_starts_refl [simp]: "keeps_starts ps ps"
  by (simp add: keeps_starts_def)














subsection \<open>Start times are not before the arrival\<close>

lemma later_starts_refl [simp]: "later_starts now ready ps ps"
  by (simp add: later_starts_def)























subsection \<open>A round of single steps, in closed form\<close>









subsection \<open>Rounds of a bulk skip compose\<close>













subsection \<open>The variant without the bulk skip takes the rounds one step at a time\<close>


lemma ticked_fields [simp]:
  "rq (ticked quantum max_seq_len s) = tl (rq s) @ [hd (rq s)]"
  "jq (ticked quantum max_seq_len s) = jq s"
  "curr_time (ticked quantum max_seq_len s) = curr_time s + quantum"
  "arrival (ticked quantum max_seq_len s) = arrival s"
  "remaining (ticked quantum max_seq_len s) = remaining (ran_quantum quantum max_seq_len s)"
  by (simp_all add: ticked_def arrival_def remaining_def fun_eq_iff ran_quantum_def)









subsection \<open>A single step after a late admission\<close>

text \<open>
  After a bulk skip the program runs a single step without looking at the arrivals again.
  The variant without the bulk skip admits the process that has arrived first; the next two
  lemmas show that the two orders lead to the same state.
\<close>

lemma remaining_admitted [simp]: "remaining (admitted s) = remaining s"
  by (simp add: remaining_def fun_eq_iff)



lemma arrival_queues [simp]: "arrival (s\<lparr>rq := ready, jq := pending\<rparr>) = arrival s"
  by (simp add: arrival_def fun_eq_iff)










subsection \<open>The bulk skip and the single steps give the same result\<close>






end
